theory Spec2Isabelle
  imports Main "HOL-Library.Word"
begin

section \<open>Data model of distgen\_internal.cpp\<close>

type_synonym u64 = "64 word"

text \<open>Fatal outcomes of the C++ code: a failed \<open>assert\<close>, an access outside an
  allocation, a null pointer dereference, an integer division by zero and the overflow of
  a signed \<open>int\<close> counter.\<close>

datatype error = AssertFailed | OutOfBounds | NullPointer | DivByZero | SignedOverflow

text \<open>The file-level variables. The three arrays are declared with \<open>MAXDISTCOUNT\<close>
  elements; the constant comes from a header that is not part of the sources at hand, so
  the declared size is the length of the list that models the array.\<close>

record globals =
  distSize :: "u64 list"
  distBlocks :: "u64 list"
  distIter :: "u64 list"
  distsUsed :: int
  pseudoRandom :: int
  blocks :: u64
  blockDiff :: u64

definition MAXDISTCOUNT :: "globals \<Rightarrow> int" where
  "MAXDISTCOUNT g = int (length (distSize g))"

text \<open>Static storage is zero-initialised; \<open>cap\<close> is the value of \<open>MAXDISTCOUNT\<close>.\<close>

definition init_globals :: "nat \<Rightarrow> globals" where
  "init_globals cap =
     \<lparr>distSize = replicate cap 0, distBlocks = replicate cap 0, distIter = replicate cap 0,
      distsUsed = 0, pseudoRandom = 0, blocks = 0, blockDiff = 0\<rparr>"

section \<open>Distance registry: addDist\<close>

text \<open>Every access to \<open>distSize\<close> is logged with its index, as the C code computes it
  (a signed \<open>int\<close>).\<close>

datatype access = Rd int | Wr int

text \<open>A read of \<open>a[i]\<close>. Inside the array it yields the element. Outside, C gives no
  meaning to it; on a flat memory it yields whatever word \<open>stray\<close> lies there, and the
  model carries that word as a parameter.\<close>

definition peek :: "u64 \<Rightarrow> u64 list \<Rightarrow> int \<Rightarrow> u64" where
  "peek stray a i = (if 0 \<le> i \<and> i < int (length a) then a ! nat i else stray)"

text \<open>The search loop of \<open>addDist\<close>:
  \<^verbatim>\<open>for (d = 0; d < distsUsed; d++) {
    if (distSize[d] == size) return;
    if (distSize[d] < size) break; }\<close>
  \<open>None\<close> is the early \<open>return\<close>, \<open>Some d\<close> the value of \<open>d\<close> after the loop.\<close>

function addDist_find :: "u64 \<Rightarrow> u64 list \<Rightarrow> int \<Rightarrow> u64 \<Rightarrow> int \<Rightarrow> int option \<times> access list" where
  "addDist_find stray a used sz d =
     (if d < used then
        (if peek stray a d = sz then (None, [Rd d])
         else if peek stray a d < sz then (Some d, [Rd d, Rd d])
         else (case addDist_find stray a used sz (d + 1) of
                 (r, tr) \<Rightarrow> (r, Rd d # Rd d # tr)))
      else (Some d, []))"
  by pat_completeness auto
termination
  by (relation "measure (\<lambda>(stray, a, used, sz, d). nat (used - d))") auto

declare addDist_find.simps [simp del]

text \<open>The shifting loop of \<open>addDist\<close>:
  \<^verbatim>\<open>for (dd = distsUsed; dd >= d; dd--) distSize[dd] = distSize[dd - 1];\<close>
  A write outside the array is fatal in the model.\<close>

function addDist_shift :: "u64 \<Rightarrow> int \<Rightarrow> int \<Rightarrow> u64 list \<Rightarrow> error + (u64 list \<times> access list)" where
  "addDist_shift stray d dd a =
     (if dd \<ge> d then
        (if 0 \<le> dd \<and> dd < int (length a) then
           (case addDist_shift stray d (dd - 1) (a[nat dd := peek stray a (dd - 1)]) of
              Inl e \<Rightarrow> Inl e
            | Inr (a', tr) \<Rightarrow> Inr (a', Rd (dd - 1) # Wr dd # tr))
         else Inl OutOfBounds)
      else Inr (a, []))"
  by pat_completeness auto
termination
  by (relation "measure (\<lambda>(stray, d, dd, a). nat (dd - d + 1))") auto

declare addDist_shift.simps [simp del]

definition addDist :: "u64 \<Rightarrow> u64 \<Rightarrow> globals \<Rightarrow> error + (globals \<times> access list)" where
  "addDist stray sz g =
     (case addDist_find stray (distSize g) (distsUsed g) sz 0 of
        (None, tr) \<Rightarrow> Inr (g, tr)
      | (Some d, tr) \<Rightarrow>
          if \<not> distsUsed g < MAXDISTCOUNT g then Inl AssertFailed
          else (case addDist_shift stray d (distsUsed g) (distSize g) of
                  Inl e \<Rightarrow> Inl e
                | Inr (a, tr') \<Rightarrow>
                    if 0 \<le> d \<and> d < int (length a) then
                      Inr (g\<lparr>distSize := a[nat d := sz], distsUsed := distsUsed g + 1\<rparr>,
                           tr @ tr' @ [Wr d])
                    else Inl OutOfBounds))"

text \<open>The registries that calls of \<open>addDist\<close> can produce from the initial state. The
  word in front of the array may differ from call to call.\<close>

inductive registered :: "nat \<Rightarrow> globals \<Rightarrow> bool" for cap :: nat where
  registered_init: "registered cap (init_globals cap)"
| registered_add: "registered cap g \<Longrightarrow> addDist stray sz g = Inr (g', tr) \<Longrightarrow> registered cap g'"

text \<open>The registered distances: \<open>distSize[0 .. distsUsed)\<close>.\<close>

definition registry :: "globals \<Rightarrow> u64 list" where
  "registry g = take (nat (distsUsed g)) (distSize g)"

section \<open>Size normalizer: gcd and adjustSize\<close>

text \<open>The helper \<open>gcd\<close> of the source, on unsigned 64-bit integers:
  \<^verbatim>\<open>if (b == 0) return a; return gcd(b, a % b);\<close>\<close>

function gcd_u64 :: "u64 \<Rightarrow> u64 \<Rightarrow> u64" where
  "gcd_u64 a b = (if b = 0 then a else gcd_u64 b (a mod b))"
  by pat_completeness auto
termination
proof (relation "measure (\<lambda>(a, b). unat b)")
  show "wf (measure (\<lambda>(a :: u64, b :: u64). unat b))" by simp
next
  fix a b :: u64
  assume "b \<noteq> 0"
  then have "0 < unat b" by (simp add: unat_gt_0)
  then have "unat a mod unat b < unat b" by simp
  then show "((b, a mod b), (a, b)) \<in> measure (\<lambda>(a, b). unat b)"
    by (simp add: unat_mod)
qed

declare gcd_u64.simps [simp del]

text \<open>\<^verbatim>\<open>while (gcd(size, diff) > 1) size++; return size;\<close>
  The increment wraps around at \<open>2^64\<close>, as unsigned arithmetic does in C++. Whether the
  loop ends is a property to be proved, so a run that never returns is \<open>None\<close>.\<close>

partial_function (option) adjustSize :: "u64 \<Rightarrow> u64 \<Rightarrow> u64 option" where
  "adjustSize sz diff = (if gcd_u64 sz diff > 1 then adjustSize (sz + 1) diff else Some sz)"

declare adjustSize.simps [code]

section \<open>Initialisation: initBufs\<close>

text \<open>Modelled from the spec: the header \<open>distgen\_internal.h\<close> with \<open>BLOCKLEN\<close> and
  \<open>struct entry\<close> is missing. The spec gives an access block of 64 bytes (one cache
  line) and a buffer unit of 16 bytes, an 8-byte floating-point payload and an 8-byte
  link; \<open>initBufs\<close> asserts the 16 bytes.\<close>

definition BLOCKLEN :: u64 where
  "BLOCKLEN = 64"

definition sizeof_entry :: u64 where
  "sizeof_entry = 16"

text \<open>The loop that fills \<open>distBlocks\<close> and \<open>distIter\<close>:
  \<^verbatim>\<open>for (int d = 0; d < distsUsed; d++) {
    distBlocks[d] = (distSize[d] + BLOCKLEN - 1) / BLOCKLEN;
    distIter[d] = distSize[0] / distSize[d]; }\<close>\<close>

function initBufs_dists :: "int \<Rightarrow> globals \<Rightarrow> error + globals" where
  "initBufs_dists d g =
     (if d < distsUsed g then
        (if \<not> (0 \<le> d \<and> nat d < length (distSize g) \<and> nat d < length (distBlocks g)
                \<and> nat d < length (distIter g)) then Inl OutOfBounds
         else if distSize g ! nat d = 0 then Inl DivByZero
         else initBufs_dists (d + 1)
                (g\<lparr>distBlocks := (distBlocks g)[nat d := (distSize g ! nat d + BLOCKLEN - 1) div BLOCKLEN],
                   distIter := (distIter g)[nat d := distSize g ! 0 div distSize g ! nat d]\<rparr>))
      else Inr g)"
  by pat_completeness auto
termination
  by (relation "measure (\<lambda>(d, g). nat (distsUsed g - d))") auto

declare initBufs_dists.simps [simp del]

text \<open>The stride policy and the call of the size normalizer:
  \<^verbatim>\<open>blocks = (distSize[0] + BLOCKLEN - 1) / BLOCKLEN;
  blockDiff = pseudoRandom ? (blocks * 7 / 17) : 1;
  blocks = adjustSize(blocks, blockDiff);\<close>\<close>

definition raw_blocks :: "globals \<Rightarrow> u64" where
  "raw_blocks g = (distSize g ! 0 + BLOCKLEN - 1) div BLOCKLEN"

definition stride_policy :: "int \<Rightarrow> u64 \<Rightarrow> u64" where
  "stride_policy pr b = (if pr \<noteq> 0 then b * 7 div 17 else 1)"

text \<open>\<open>initBufs\<close> up to the point where the worker threads are started. The diagnostic
  output and the assertions on \<open>tcount\<close> and \<open>sizeof(struct entry)\<close> are left out.
  \<open>None\<close>: \<open>adjustSize\<close> does not return.\<close>

definition initBufs :: "globals \<Rightarrow> (error + globals) option" where
  "initBufs g =
     (case initBufs_dists 0 g of
        Inl e \<Rightarrow> Some (Inl e)
      | Inr g1 \<Rightarrow>
          if length (distSize g1) = 0 then Some (Inl OutOfBounds)
          else (case adjustSize (raw_blocks g1) (stride_policy (pseudoRandom g1) (raw_blocks g1)) of
                  None \<Rightarrow> None
                | Some b \<Rightarrow>
                    Some (Inr (g1\<lparr>blocks := b,
                                  blockDiff := stride_policy (pseudoRandom g1) (raw_blocks g1)\<rparr>))))"

section \<open>Buffers and the dependency chain: init\_memory\_per\_thread\<close>

text \<open>A buffer unit, \<open>struct entry\<close>: the payload \<open>v\<close> and the link \<open>next\<close>. The link
  points into the buffer that holds the unit, so it is modelled by the index of the unit
  it points to: \<open>Some i\<close> is the pointer \<open>buf + i\<close>, \<open>None\<close> the null pointer. The
  payload is a \<open>double\<close>; its type and its operations are parameters of the model.\<close>

record 'v entry =
  val :: 'v
  nxt :: "nat option"

record 'v double_ops =
  dadd :: "'v \<Rightarrow> 'v \<Rightarrow> 'v"
  of_u64 :: "u64 \<Rightarrow> 'v"
  d_one :: 'v
  d_v :: 'v

text \<open>The step of the strided addressing, which the chain builder and the sequential
  modes of \<open>runBench\<close> share:
  \<^verbatim>\<open>idx += idxIncr; if (idx >= idxMax) idx -= idxMax;\<close>\<close>

definition advance :: "u64 \<Rightarrow> u64 \<Rightarrow> u64 \<Rightarrow> u64" where
  "advance idxIncr idxMax idx =
     (let n = idx + idxIncr in if n \<ge> idxMax then n - idxMax else n)"

definition idxMax_of :: "globals \<Rightarrow> u64" where
  "idxMax_of g = blocks g * BLOCKLEN div sizeof_entry"

definition idxIncr_of :: "globals \<Rightarrow> u64" where
  "idxIncr_of g = blockDiff g * BLOCKLEN div sizeof_entry"

text \<open>The loop that generates the dependency chain:
  \<^verbatim>\<open>for (blk = 0; blk < blocks; blk++) {
    nextIdx = idx + idxIncr;
    if (nextIdx >= idxMax) nextIdx -= idxMax;
    assert(buf[idx].next == 0);
    buf[idx].next = buf + nextIdx;
    idx = nextIdx; }\<close>\<close>

function gen_chain :: "u64 \<Rightarrow> u64 \<Rightarrow> u64 \<Rightarrow> u64 \<Rightarrow> u64 \<Rightarrow> 'v entry list \<Rightarrow> error + 'v entry list" where
  "gen_chain idxIncr idxMax nblocks blk idx buf =
     (if blk < nblocks then
        (let nextIdx = advance idxIncr idxMax idx in
         if \<not> unat idx < length buf then Inl OutOfBounds
         else if nxt (buf ! unat idx) \<noteq> None then Inl AssertFailed
         else gen_chain idxIncr idxMax nblocks (blk + 1) nextIdx
                (buf[unat idx := (buf ! unat idx)\<lparr>nxt := Some (unat nextIdx)\<rparr>]))
      else Inr buf)"
  by pat_completeness auto
termination
proof (relation "measure (\<lambda>(idxIncr, idxMax, nblocks, blk, idx, buf). unat nblocks - unat blk)")
  show "wf (measure (\<lambda>(idxIncr :: u64, idxMax :: u64, nblocks :: u64, blk :: u64, idx :: u64,
      buf :: 'v entry list). unat nblocks - unat blk))" by simp
next
  fix idxIncr idxMax nblocks blk idx :: u64 and buf :: "'v entry list" and x :: u64
  assume "blk < nblocks"
  then have lt: "unat blk < unat nblocks" by (simp add: word_less_nat_alt)
  moreover have "unat nblocks < 2 ^ 64" using unsigned_less [of nblocks, where ?'a = nat] by simp
  ultimately have "unat blk + unat (1 :: u64) < 2 ^ LENGTH(64)" by simp
  then have "unat (blk + 1) = unat blk + 1" using unat_add_lem [of blk 1] by simp
  with lt show "((idxIncr, idxMax, nblocks, blk + 1, x,
      buf[unat idx := (buf ! unat idx)\<lparr>nxt := Some (unat x)\<rparr>]),
      (idxIncr, idxMax, nblocks, blk, idx, buf))
    \<in> measure (\<lambda>(idxIncr, idxMax, nblocks, blk, idx, buf). unat nblocks - unat blk)"
    by simp
qed

declare gen_chain.simps [simp del]

text \<open>The buffer of one thread: \<open>blocks * BLOCKLEN\<close> bytes, every unit with its own index
  as payload and a null link; then the chain. The allocation is taken to succeed.\<close>

definition fresh_buffer :: "'v double_ops \<Rightarrow> u64 \<Rightarrow> 'v entry list" where
  "fresh_buffer F idxMax = map (\<lambda>i. \<lparr>val = of_u64 F (word_of_nat i), nxt = None\<rparr>) [0..<unat idxMax]"

definition init_memory_per_thread :: "'v double_ops \<Rightarrow> globals \<Rightarrow> error + 'v entry list" where
  "init_memory_per_thread F g =
     gen_chain (idxIncr_of g) (idxMax_of g) (blocks g) 0 0 (fresh_buffer F (idxMax_of g))"

section \<open>Benchmark executor: runBench\<close>

text \<open>What a call works on: the buffer, the local \<open>lsum\<close>, the counter behind \<open>aCount\<close>,
  and, as a ghost variable, the list of the values that were added to \<open>lsum\<close>.\<close>

record 'v run =
  buffer :: "'v entry list"
  lsum :: 'v
  aCount :: u64
  reads :: "'v list"

text \<open>\<^verbatim>\<open>lsum += x\<close>\<close>

definition add_sum :: "'v double_ops \<Rightarrow> 'v \<Rightarrow> 'v run \<Rightarrow> 'v run" where
  "add_sum F x r = r\<lparr>lsum := dadd F (lsum r) x, reads := reads r @ [x]\<rparr>"

text \<open>The four loop bodies of the \<open>switch\<close>, each on the pair of its cursor (\<open>idx\<close> or
  \<open>p\<close>) and the run.

  Case 0: \<^verbatim>\<open>lsum += buffer[idx].v; idx += idxIncr; if (idx >= idxMax) idx -= idxMax;\<close>\<close>

definition step_seq_read ::
  "'v double_ops \<Rightarrow> u64 \<Rightarrow> u64 \<Rightarrow> u64 \<times> 'v run \<Rightarrow> error + (u64 \<times> 'v run)" where
  "step_seq_read F idxIncr idxMax s =
     (case s of (idx, r) \<Rightarrow>
        if unat idx < length (buffer r) then
          Inr (advance idxIncr idxMax idx, add_sum F (val (buffer r ! unat idx)) r)
        else Inl OutOfBounds)"

text \<open>Case 1: \<^verbatim>\<open>lsum += p->v; p = p->next;\<close>\<close>

definition step_chain_read ::
  "'v double_ops \<Rightarrow> nat option \<times> 'v run \<Rightarrow> error + (nat option \<times> 'v run)" where
  "step_chain_read F s =
     (case s of (p, r) \<Rightarrow>
        (case p of
           None \<Rightarrow> Inl NullPointer
         | Some i \<Rightarrow>
             if i < length (buffer r) then
               Inr (nxt (buffer r ! i), add_sum F (val (buffer r ! i)) r)
             else Inl OutOfBounds))"

text \<open>Case 2: \<^verbatim>\<open>buffer[idx].v += 1.0; lsum += buffer[idx].v; idx += idxIncr;
  if (idx >= idxMax) idx -= idxMax;\<close>\<close>

definition step_seq_write ::
  "'v double_ops \<Rightarrow> u64 \<Rightarrow> u64 \<Rightarrow> u64 \<times> 'v run \<Rightarrow> error + (u64 \<times> 'v run)" where
  "step_seq_write F idxIncr idxMax s =
     (case s of (idx, r) \<Rightarrow>
        if unat idx < length (buffer r) then
          (let e = buffer r ! unat idx;
               x = dadd F (val e) (d_one F);
               r1 = r\<lparr>buffer := (buffer r)[unat idx := e\<lparr>val := x\<rparr>]\<rparr>
           in Inr (advance idxIncr idxMax idx, add_sum F x r1))
        else Inl OutOfBounds)"

text \<open>Case 3: \<^verbatim>\<open>p->v += 1.0; lsum += p->v; p->v = v; p = p->next;\<close>\<close>

definition step_chain_write ::
  "'v double_ops \<Rightarrow> nat option \<times> 'v run \<Rightarrow> error + (nat option \<times> 'v run)" where
  "step_chain_write F s =
     (case s of (p, r) \<Rightarrow>
        (case p of
           None \<Rightarrow> Inl NullPointer
         | Some i \<Rightarrow>
             if i < length (buffer r) then
               (let e = buffer r ! i;
                    x = dadd F (val e) (d_one F);
                    r1 = add_sum F x r;
                    r2 = r1\<lparr>buffer := (buffer r)[i := e\<lparr>val := d_v F\<rparr>]\<rparr>
                in Inr (nxt e, r2))
             else Inl OutOfBounds))"

text \<open>\<^verbatim>\<open>for (j = 0; j < max; j++) body\<close>, with \<open>j\<close> and \<open>max\<close> of type \<open>u64\<close>.\<close>

function for_j :: "('s \<Rightarrow> error + 's) \<Rightarrow> u64 \<Rightarrow> u64 \<Rightarrow> 's \<Rightarrow> error + 's" where
  "for_j body mx j s =
     (if j < mx then
        (case body s of Inl e \<Rightarrow> Inl e | Inr s' \<Rightarrow> for_j body mx (j + 1) s')
      else Inr s)"
  by pat_completeness auto
termination
proof (relation "measure (\<lambda>(body, mx, j, s). unat mx - unat j)")
  show "wf (measure (\<lambda>(body :: 's \<Rightarrow> error + 's, mx :: u64, j :: u64, s :: 's). unat mx - unat j))"
    by simp
next
  fix body :: "'s \<Rightarrow> error + 's" and mx j :: u64 and s s' :: 's
  assume "j < mx"
  then have lt: "unat j < unat mx" by (simp add: word_less_nat_alt)
  moreover have "unat mx < 2 ^ 64" using unsigned_less [of mx, where ?'a = nat] by simp
  ultimately have "unat j + unat (1 :: u64) < 2 ^ LENGTH(64)" by simp
  then have "unat (j + 1) = unat j + 1" using unat_add_lem [of j 1] by simp
  with lt show "((body, mx, j + 1, s'), (body, mx, j, s))
    \<in> measure (\<lambda>(body, mx, j, s). unat mx - unat j)"
    by simp
qed

declare for_j.simps [simp del]

text \<open>The body of the \<open>k\<close> loop for the distance \<open>d\<close>:
  \<^verbatim>\<open>*aCount += distBlocks[d]; max = distBlocks[d]; switch (benchType) { ... }\<close>
  Sequential modes start at \<open>idx = 0\<close>, chain modes at \<open>p = buffer\<close>; any other
  \<open>benchType\<close> runs into \<open>assert(0)\<close>.\<close>

definition traverse :: "'v double_ops \<Rightarrow> globals \<Rightarrow> int \<Rightarrow> int \<Rightarrow> 'v run \<Rightarrow> error + 'v run" where
  "traverse F g benchType d r =
     (let mx = distBlocks g ! nat d;
          r1 = r\<lparr>aCount := aCount r + mx\<rparr>
      in if benchType = 0 then
           map_sum id snd (for_j (step_seq_read F (idxIncr_of g) (idxMax_of g)) mx 0 (0, r1))
         else if benchType = 1 then
           map_sum id snd (for_j (step_chain_read F) mx 0 (Some 0, r1))
         else if benchType = 2 then
           map_sum id snd (for_j (step_seq_write F (idxIncr_of g) (idxMax_of g)) mx 0 (0, r1))
         else if benchType = 3 then
           map_sum id snd (for_j (step_chain_write F) mx 0 (Some 0, r1))
         else Inl AssertFailed)"

text \<open>\<^verbatim>\<open>for (k = 0; k < distIter[d]; k++) body\<close>. Here \<open>k\<close> is an \<open>int\<close> and the bound a
  \<open>u64\<close>: the comparison converts \<open>k\<close> to \<open>u64\<close>, and \<open>k++\<close> at \<open>INT_MAX\<close> is a signed
  overflow.\<close>

function for_k :: "('s \<Rightarrow> error + 's) \<Rightarrow> u64 \<Rightarrow> int \<Rightarrow> 's \<Rightarrow> error + 's" where
  "for_k body n k s =
     (if (word_of_int k :: u64) < n then
        (case body s of
           Inl e \<Rightarrow> Inl e
         | Inr s' \<Rightarrow> if 2147483647 \<le> k then Inl SignedOverflow else for_k body n (k + 1) s')
      else Inr s)"
  by pat_completeness auto
termination
  by (relation "measure (\<lambda>(body, n, k, s). nat (2147483647 - k))") auto

declare for_k.simps [simp del]

text \<open>\<^verbatim>\<open>lsum += buffer[0].v\<close>\<close>

definition touch_first :: "'v double_ops \<Rightarrow> 'v run \<Rightarrow> error + 'v run" where
  "touch_first F r =
     (if 0 < length (buffer r) then Inr (add_sum F (val (buffer r ! 0)) r) else Inl OutOfBounds)"

text \<open>\<^verbatim>\<open>for (d = 0; d < distsUsed; d++) {
    lsum += buffer[0].v;
    for (k = 0; k < distIter[d]; k++) { ... } }\<close>\<close>

function for_d :: "'v double_ops \<Rightarrow> globals \<Rightarrow> int \<Rightarrow> int \<Rightarrow> 'v run \<Rightarrow> error + 'v run" where
  "for_d F g benchType d r =
     (if d < distsUsed g then
        (if \<not> (0 \<le> d \<and> nat d < length (distIter g) \<and> nat d < length (distBlocks g)) then
           Inl OutOfBounds
         else
           (case touch_first F r of
              Inl e \<Rightarrow> Inl e
            | Inr r1 \<Rightarrow>
                (case for_k (traverse F g benchType d) (distIter g ! nat d) 0 r1 of
                   Inl e \<Rightarrow> Inl e
                 | Inr r2 \<Rightarrow> for_d F g benchType (d + 1) r2)))
      else Inr r)"
  by pat_completeness auto
termination
  by (relation "measure (\<lambda>(F, g, benchType, d, r). nat (distsUsed g - d))") auto

declare for_d.simps [simp del]

text \<open>\<^verbatim>\<open>for (size_t i = 0; i < iter; i++) { lsum += buffer[0].v; for (d ...) ... }\<close>\<close>

function for_i :: "'v double_ops \<Rightarrow> globals \<Rightarrow> int \<Rightarrow> u64 \<Rightarrow> u64 \<Rightarrow> 'v run \<Rightarrow> error + 'v run" where
  "for_i F g benchType iter i r =
     (if i < iter then
        (case touch_first F r of
           Inl e \<Rightarrow> Inl e
         | Inr r1 \<Rightarrow>
             (case for_d F g benchType 0 r1 of
                Inl e \<Rightarrow> Inl e
              | Inr r2 \<Rightarrow> for_i F g benchType iter (i + 1) r2))
      else Inr r)"
  by pat_completeness auto
termination
proof (relation "measure (\<lambda>(F, g, benchType, iter, i, r). unat iter - unat i)")
  show "wf (measure (\<lambda>(F :: 'v double_ops, g :: globals, benchType :: int, iter :: u64, i :: u64,
      r :: 'v run). unat iter - unat i))"
    by simp
next
  fix F :: "'v double_ops" and g :: globals and benchType :: int and iter i :: u64
    and r r1 r2 :: "'v run"
  assume "i < iter"
  then have lt: "unat i < unat iter" by (simp add: word_less_nat_alt)
  moreover have "unat iter < 2 ^ 64" using unsigned_less [of iter, where ?'a = nat] by simp
  ultimately have "unat i + unat (1 :: u64) < 2 ^ LENGTH(64)" by simp
  then have "unat (i + 1) = unat i + 1" using unat_add_lem [of i 1] by simp
  with lt show "((F, g, benchType, iter, i + 1, r2), (F, g, benchType, iter, i, r))
    \<in> measure (\<lambda>(F, g, benchType, iter, i, r). unat iter - unat i)"
    by simp
qed

declare for_i.simps [simp del]

text \<open>\<open>runBench\<close>: \<open>benchType = depChain + 2 * doWrite\<close>, \<open>lsum = *sum\<close>, the loops, and
  \<open>*sum = lsum\<close> at the end. The result is the final run: its \<open>lsum\<close> is the value stored
  to \<open>*sum\<close>, its \<open>aCount\<close> the value of \<open>*aCount\<close>. The two flags are small numbers;
  their combination is computed in the integers. The objects behind \<open>sum\<close> and \<open>aCount\<close>
  are taken to lie outside the buffer.\<close>

definition runBench ::
  "'v double_ops \<Rightarrow> globals \<Rightarrow> 'v entry list \<Rightarrow> u64 \<Rightarrow> int \<Rightarrow> int \<Rightarrow> 'v \<Rightarrow> u64 \<Rightarrow> error + 'v run" where
  "runBench F g buf iter depChain doWrite sum0 aCnt =
     for_i F g (depChain + 2 * doWrite) iter 0
       \<lparr>buffer = buf, lsum = sum0, aCount = aCnt, reads = []\<rparr>"

text \<open>Modelled from the spec: the caller of \<open>runBench\<close> is missing from the sources. The
  spec has the caller supply a starting sum "for multi-call accumulation across phases":
  \<open>m\<close> successive calls on one buffer, each handed the sum and the counter that the call
  before has left.\<close>

fun runBench_calls ::
  "'v double_ops \<Rightarrow> globals \<Rightarrow> u64 \<Rightarrow> int \<Rightarrow> int \<Rightarrow> nat \<Rightarrow> 'v run \<Rightarrow> error + 'v run" where
  "runBench_calls F g iter depChain doWrite 0 r = Inr r"
| "runBench_calls F g iter depChain doWrite (Suc m) r =
     (case runBench F g (buffer r) iter depChain doWrite (lsum r) (aCount r) of
        Inl e \<Rightarrow> Inl e
      | Inr r' \<Rightarrow> runBench_calls F g iter depChain doWrite m r')"

text \<open>The number of accesses of one outer iteration, as \<open>initBufs\<close> computes it for its
  diagnostic output: \<^verbatim>\<open>for (int d = 0; d < distsUsed; d++) aCount += distIter[d] * distBlocks[d];\<close>\<close>

definition accesses_per_iteration :: "globals \<Rightarrow> u64" where
  "accesses_per_iteration g =
     sum_list (map (\<lambda>d. distIter g ! d * distBlocks g ! d) [0..<nat (distsUsed g)])"

text \<open>Following the links: \<open>p = p->next\<close>, \<open>n\<close> times.\<close>

definition chain_next :: "'v entry list \<Rightarrow> nat option \<Rightarrow> nat option" where
  "chain_next buf p =
     (case p of None \<Rightarrow> None | Some i \<Rightarrow> if i < length buf then nxt (buf ! i) else None)"

definition chain_walk :: "'v entry list \<Rightarrow> nat \<Rightarrow> nat option" where
  "chain_walk buf n = (chain_next buf ^^ n) (Some 0)"

text \<open>The strided addressing from \<open>idx = 0\<close>, \<open>n\<close> steps.\<close>

definition seq_walk :: "globals \<Rightarrow> nat \<Rightarrow> u64" where
  "seq_walk g n = (advance (idxIncr_of g) (idxMax_of g) ^^ n) 0"

text \<open>The relation between \<open>lsum\<close> and the values read so far, for a call that started
  with the sum \<open>s0\<close>.\<close>

definition sum_ok :: "'v double_ops \<Rightarrow> 'v \<Rightarrow> 'v run \<Rightarrow> bool" where
  "sum_ok F s0 r \<longleftrightarrow> lsum r = foldl (dadd F) s0 (reads r)"

section \<open>Concrete configurations\<close>

text \<open>An instance of the payload operations for the evaluation of examples: the payload
  values are integers.\<close>

definition example_ops :: "int double_ops" where
  "example_ops = \<lparr>dadd = (+), of_u64 = uint, d_one = 1, d_v = 123\<rparr>"

text \<open>Two registered distances, 128 and 64 bytes, sequential stride: the state after
  \<open>initBufs\<close> and the buffer that \<open>init_memory_per_thread\<close> builds for it.\<close>

definition example_globals :: globals where
  "example_globals =
     \<lparr>distSize = [128, 64, 0, 0], distBlocks = [2, 1, 0, 0], distIter = [1, 2, 0, 0],
      distsUsed = 2, pseudoRandom = 0, blocks = 2, blockDiff = 1\<rparr>"

definition example_buffer :: "int entry list" where
  "example_buffer =
     [\<lparr>val = 0, nxt = Some 4\<rparr>, \<lparr>val = 1, nxt = None\<rparr>, \<lparr>val = 2, nxt = None\<rparr>,
      \<lparr>val = 3, nxt = None\<rparr>, \<lparr>val = 4, nxt = Some 0\<rparr>, \<lparr>val = 5, nxt = None\<rparr>,
      \<lparr>val = 6, nxt = None\<rparr>, \<lparr>val = 7, nxt = None\<rparr>]"

text \<open>The example of the spec: distances 4096 and 1024 bytes, before and after
  \<open>initBufs\<close>.\<close>

definition spec_example :: globals where
  "spec_example =
     (init_globals 10)\<lparr>distSize := [4096, 1024, 0, 0, 0, 0, 0, 0, 0, 0], distsUsed := 2\<rparr>"

definition spec_example_sizes :: globals where
  "spec_example_sizes =
     \<lparr>distSize = [4096, 1024, 0, 0, 0, 0, 0, 0, 0, 0],
      distBlocks = [64, 16, 0, 0, 0, 0, 0, 0, 0, 0],
      distIter = [1, 4, 0, 0, 0, 0, 0, 0, 0, 0],
      distsUsed = 2, pseudoRandom = 0, blocks = 64, blockDiff = 1\<rparr>"

text \<open>For the analysis of the chain: the entry index that the builder has reached after
  \<open>j\<close> steps with \<open>B\<close> blocks and the stride \<open>S\<close>, four entries to a block; and the
  buffers in which exactly the entries reached in the first \<open>j\<close> steps carry a link, each
  to the entry one stride further.\<close>

definition chain_pos :: "nat \<Rightarrow> nat \<Rightarrow> nat \<Rightarrow> nat" where
  "chain_pos B S j = 4 * ((j * S) mod B)"

definition linked :: "nat \<Rightarrow> nat \<Rightarrow> nat \<Rightarrow> 'v entry list \<Rightarrow> 'v entry list \<Rightarrow> bool" where
  "linked B S j buf0 buf \<longleftrightarrow>
     length buf = length buf0 \<and>
     (\<forall>i < length buf. val (buf ! i) = val (buf0 ! i) \<and>
        nxt (buf ! i) = (if i \<in> chain_pos B S ` {..<j} then Some ((i + 4 * S) mod (4 * B)) else None))"

text \<open>The entry indices at which the blocks start.\<close>

definition block_starts :: "globals \<Rightarrow> nat set" where
  "block_starts g = (\<lambda>k. k * unat (BLOCKLEN div sizeof_entry)) ` {..<unat (blocks g)}"

text \<open>The second example of the spec: pseudo-random addressing and a largest distance of
  17 blocks, which gives the stride 7; before and after \<open>initBufs\<close>.\<close>

definition chain_example :: globals where
  "chain_example =
     (init_globals 4)\<lparr>distSize := [1088, 64, 0, 0], distsUsed := 2, pseudoRandom := 1\<rparr>"

definition chain_example_sizes :: globals where
  "chain_example_sizes =
     \<lparr>distSize = [1088, 64, 0, 0], distBlocks = [17, 1, 0, 0], distIter = [1, 17, 0, 0],
      distsUsed = 2, pseudoRandom = 1, blocks = 17, blockDiff = 7\<rparr>"

text \<open>The buffer that \<open>init_memory_per_thread\<close> builds for this example: 68 entries.\<close>

definition chain_example_buffer :: "int entry list" where
  "chain_example_buffer =
     (case init_memory_per_thread example_ops chain_example_sizes of Inr b \<Rightarrow> b | Inl e \<Rightarrow> [])"

text \<open>Two registered distances of 4 GiB and 1 byte, before and after \<open>initBufs\<close>: the
  smaller distance is traversed \<open>2^32\<close> times per iteration.\<close>

definition long_run_example :: globals where
  "long_run_example =
     (init_globals 4)\<lparr>distSize := [4294967296, 1, 0, 0], distsUsed := 2\<rparr>"

definition long_run_sizes :: globals where
  "long_run_sizes =
     \<lparr>distSize = [4294967296, 1, 0, 0], distBlocks = [67108864, 1, 0, 0],
      distIter = [1, 4294967296, 0, 0],
      distsUsed = 2, pseudoRandom = 0, blocks = 67108864, blockDiff = 1\<rparr>"

text \<open>What a call of \<open>runBench\<close> relies on. The sizes: at least one block, a stride of at
  most \<open>blocks\<close>, and a buffer size that fits 64 bits.\<close>

definition sizes_ok :: "globals \<Rightarrow> bool" where
  "sizes_ok g \<longleftrightarrow> blocks g \<noteq> 0 \<and> blockDiff g \<le> blocks g \<and> blocks g < 2 ^ 58"

text \<open>The buffer: \<open>blocks * BLOCKLEN\<close> bytes, and every block start linked to the block
  start one stride further. Payloads are free, so the buffer may have been written by
  earlier calls.\<close>

definition chain_ok :: "globals \<Rightarrow> 'v entry list \<Rightarrow> bool" where
  "chain_ok g buf \<longleftrightarrow>
     length buf = 4 * unat (blocks g) \<and>
     (\<forall>i < length buf. 4 dvd i \<longrightarrow>
        nxt (buf ! i) = Some ((i + 4 * unat (blockDiff g)) mod (4 * unat (blocks g))))"

text \<open>The distance tables: \<open>distsUsed\<close> entries within the arrays.\<close>

definition dists_ok :: "globals \<Rightarrow> bool" where
  "dists_ok g \<longleftrightarrow>
     0 \<le> distsUsed g \<and> nat (distsUsed g) \<le> length (distIter g) \<and>
     nat (distsUsed g) \<le> length (distBlocks g)"

text \<open>The cursor of a chain mode is on a linked block start.\<close>

definition on_chain :: "globals \<Rightarrow> nat option \<times> 'v run \<Rightarrow> bool" where
  "on_chain g s \<longleftrightarrow>
     (\<exists>i. fst s = Some i \<and> 4 dvd i \<and> i < 4 * unat (blocks g)) \<and> chain_ok g (buffer (snd s))"

text \<open>A largest distance of 128 bytes with pseudo-random addressing: 2 raw blocks and the
  stride \<open>2 * 7 / 17 = 0\<close>; before \<open>initBufs\<close> and after it.\<close>

definition stride_zero_example :: globals where
  "stride_zero_example =
     (init_globals 4)\<lparr>distSize := [128, 0, 0, 0], distsUsed := 1, pseudoRandom := 1\<rparr>"

definition stride_zero_dists :: globals where
  "stride_zero_dists =
     \<lparr>distSize = [128, 0, 0, 0], distBlocks = [2, 0, 0, 0], distIter = [1, 0, 0, 0],
      distsUsed = 1, pseudoRandom = 1, blocks = 0, blockDiff = 0\<rparr>"

text \<open>A coprime pair that \<open>initBufs\<close> never produces: 2 blocks with the stride 3, larger
  than the block count.\<close>

definition wide_stride_example :: globals where
  "wide_stride_example =
     \<lparr>distSize = [128, 0, 0, 0], distBlocks = [2, 0, 0, 0], distIter = [1, 0, 0, 0],
      distsUsed = 1, pseudoRandom = 0, blocks = 2, blockDiff = 3\<rparr>"

text \<open>The invariant of the registry: \<open>distsUsed\<close> stays within the array and the used
  part is strictly descending.\<close>

definition reg_inv :: "globals \<Rightarrow> bool" where
  "reg_inv g \<longleftrightarrow> 0 \<le> distsUsed g \<and> distsUsed g \<le> int (length (distSize g)) \<and>
     sorted_wrt (>) (registry g)"

section \<open>Properties of the distance registry\<close>

lemma addDist_find_Some:
  "addDist_find stray a used sz d = (Some p, tr) \<Longrightarrow> d \<le> used \<Longrightarrow>
     d \<le> p \<and> p \<le> used \<and> (\<forall>i. d \<le> i \<and> i < p \<longrightarrow> sz < peek stray a i) \<and>
     (p < used \<longrightarrow> peek stray a p < sz)"
proof (induction stray a used sz d arbitrary: tr rule: addDist_find.induct)
  case (1 stray a used sz d)
  show ?case
  proof (cases "d < used")
    case False
    with "1.prems" show ?thesis by (auto simp add: addDist_find.simps [of stray a used sz d])
  next
    case True
    note lt = this
    show ?thesis
    proof (cases "peek stray a d = sz")
      case True
      with lt "1.prems" show ?thesis by (simp add: addDist_find.simps [of stray a used sz d])
    next
      case False
      note ne = this
      show ?thesis
      proof (cases "peek stray a d < sz")
        case True
        with lt ne "1.prems" show ?thesis by (auto simp add: addDist_find.simps [of stray a used sz d])
      next
        case False
        with ne have gt: "sz < peek stray a d" by simp
        obtain r tr' where rec: "addDist_find stray a used sz (d + 1) = (r, tr')" by force
        with lt ne False "1.prems" have r: "r = Some p"
          by (simp add: addDist_find.simps [of stray a used sz d])
        from "1.IH" [OF lt ne False] rec r lt
        have ih: "d + 1 \<le> p \<and> p \<le> used \<and> (\<forall>i. d + 1 \<le> i \<and> i < p \<longrightarrow> sz < peek stray a i) \<and>
           (p < used \<longrightarrow> peek stray a p < sz)" by simp
        have "\<forall>i. d \<le> i \<and> i < p \<longrightarrow> sz < peek stray a i"
        proof (intro allI impI)
          fix i assume "d \<le> i \<and> i < p"
          then consider "i = d" | "d + 1 \<le> i \<and> i < p" by linarith
          then show "sz < peek stray a i" using gt ih by cases auto
        qed
        with ih show ?thesis by simp
      qed
    qed
  qed
qed

lemma addDist_find_trace:
  "addDist_find stray a used sz d = (r, tr) \<Longrightarrow> x \<in> set tr \<Longrightarrow> \<exists>i. x = Rd i \<and> d \<le> i \<and> i < used"
proof (induction stray a used sz d arbitrary: r tr rule: addDist_find.induct)
  case (1 stray a used sz d)
  show ?case
  proof (cases "d < used \<and> peek stray a d \<noteq> sz \<and> \<not> peek stray a d < sz")
    case False
    with "1.prems" show ?thesis
      by (auto simp add: addDist_find.simps [of stray a used sz d] split: if_splits)
  next
    case True
    obtain r' tr' where rec: "addDist_find stray a used sz (d + 1) = (r', tr')" by force
    with True "1.prems" have tr: "tr = Rd d # Rd d # tr'"
      by (simp add: addDist_find.simps [of stray a used sz d])
    show ?thesis
    proof (cases "x = Rd d")
      case True
      with \<open>d < used \<and> _\<close> show ?thesis by simp
    next
      case False
      with tr "1.prems" have "x \<in> set tr'" by simp
      from "1.IH" [OF _ _ _ rec this] True obtain i where "x = Rd i \<and> d + 1 \<le> i \<and> i < used" by auto
      then show ?thesis by (intro exI [of _ i]) simp
    qed
  qed
qed

lemma addDist_find_None:
  "d \<le> k \<Longrightarrow> k < used \<Longrightarrow> peek stray a k = sz \<Longrightarrow> \<forall>i. d \<le> i \<and> i < k \<longrightarrow> sz < peek stray a i \<Longrightarrow>
     fst (addDist_find stray a used sz d) = None"
proof (induction stray a used sz d rule: addDist_find.induct)
  case (1 stray a used sz d)
  show ?case
  proof (cases "d = k")
    case True
    with "1.prems" show ?thesis by (simp add: addDist_find.simps [of stray a used sz k])
  next
    case False
    with "1.prems" have lt: "d < k" by simp
    with "1.prems" have gt: "sz < peek stray a d" by simp
    then have c: "d < used" "peek stray a d \<noteq> sz" "\<not> peek stray a d < sz" using lt "1.prems" by auto
    from "1.IH" [OF c] lt "1.prems" have "fst (addDist_find stray a used sz (d + 1)) = None" by simp
    with c show ?thesis
      by (cases "addDist_find stray a used sz (d + 1)") (simp add: addDist_find.simps [of stray a used sz d])
  qed
qed

lemma addDist_shift_result:
  "0 \<le> d \<Longrightarrow> dd < int (length a) \<Longrightarrow>
     \<exists>a' tr. addDist_shift stray d dd a = Inr (a', tr) \<and> length a' = length a \<and>
       (\<forall>j < length a. a' ! j = (if d \<le> int j \<and> int j \<le> dd then peek stray a (int j - 1) else a ! j)) \<and>
       (\<forall>x \<in> set tr. (\<exists>i. x = Rd i \<and> d - 1 \<le> i \<and> i < dd) \<or> (\<exists>i. x = Wr i \<and> d \<le> i \<and> i \<le> dd))"
proof (induction stray d dd a rule: addDist_shift.induct)
  case (1 stray d dd a)
  show ?case
  proof (cases "d \<le> dd")
    case False
    then show ?thesis by (auto simp add: addDist_shift.simps [of stray d dd a])
  next
    case True
    with "1.prems" have rng: "0 \<le> dd \<and> dd < int (length a)" by simp
    let ?a1 = "a[nat dd := peek stray a (dd - 1)]"
    from "1.IH" [OF True rng] "1.prems" rng
    obtain a' tr where rec: "addDist_shift stray d (dd - 1) ?a1 = Inr (a', tr)"
      and len: "length a' = length a"
      and nth: "\<forall>j < length a. a' ! j = (if d \<le> int j \<and> int j \<le> dd - 1 then peek stray ?a1 (int j - 1) else ?a1 ! j)"
      and trc: "\<forall>x \<in> set tr. (\<exists>i. x = Rd i \<and> d - 1 \<le> i \<and> i < dd - 1) \<or> (\<exists>i. x = Wr i \<and> d \<le> i \<and> i \<le> dd - 1)"
      by auto
    have eq: "addDist_shift stray d dd a = Inr (a', Rd (dd - 1) # Wr dd # tr)"
      using True rng rec by (simp add: addDist_shift.simps [of stray d dd a])
    have n2: "\<forall>j < length a. a' ! j = (if d \<le> int j \<and> int j \<le> dd then peek stray a (int j - 1) else a ! j)"
    proof (intro allI impI)
      fix j assume j: "j < length a"
      show "a' ! j = (if d \<le> int j \<and> int j \<le> dd then peek stray a (int j - 1) else a ! j)"
      proof (cases "int j = dd")
        case True
        then have "nat dd = j" by simp
        with nth j True \<open>d \<le> dd\<close> show ?thesis by simp
      next
        case False
        then have ne: "nat dd \<noteq> j" using rng by auto
        have ne2: "int j \<le> dd - 1 \<Longrightarrow> 0 \<le> int j - 1 \<Longrightarrow> nat (int j - 1) \<noteq> nat dd" using rng by auto
        show ?thesis using nth j False ne ne2 by (auto simp add: peek_def)
      qed
    qed
    have t2: "\<forall>x \<in> set (Rd (dd - 1) # Wr dd # tr). (\<exists>i. x = Rd i \<and> d - 1 \<le> i \<and> i < dd) \<or> (\<exists>i. x = Wr i \<and> d \<le> i \<and> i \<le> dd)"
      using trc True by auto
    from eq len n2 t2 show ?thesis by blast
  qed
qed

lemma reg_inv_init: "reg_inv (init_globals cap)"
  by (simp add: reg_inv_def init_globals_def registry_def)

lemma addDist_inv:
  assumes inv: "reg_inv g" and run: "addDist stray sz g = Inr (g', tr)"
  shows "reg_inv g' \<and> length (distSize g') = length (distSize g)"
proof -
  let ?a = "distSize g" and ?u = "distsUsed g"
  from inv have u0: "0 \<le> ?u" and ulen: "?u \<le> int (length ?a)"
    and srt: "sorted_wrt (>) (take (nat ?u) ?a)"
    by (simp_all add: reg_inv_def registry_def)
  obtain r tr0 where fnd: "addDist_find stray ?a ?u sz 0 = (r, tr0)" by force
  show ?thesis
  proof (cases r)
    case None
    with fnd run have "g' = g" by (simp add: addDist_def)
    with inv show ?thesis by simp
  next
    case (Some d)
    from addDist_find_Some [OF fnd [unfolded Some] u0]
    have d0: "0 \<le> d" and du: "d \<le> ?u"
      and before: "\<forall>i. 0 \<le> i \<and> i < d \<longrightarrow> sz < peek stray ?a i"
      and at: "d < ?u \<longrightarrow> peek stray ?a d < sz" by auto
    from run fnd Some have cap: "?u < int (length ?a)"
      by (simp add: addDist_def MAXDISTCOUNT_def split: if_splits)
    from addDist_shift_result [OF d0 cap, of stray]
    obtain a' tr' where sh: "addDist_shift stray d ?u ?a = Inr (a', tr')"
      and len: "length a' = length ?a"
      and nth: "\<forall>j < length ?a. a' ! j = (if d \<le> int j \<and> int j \<le> ?u then peek stray ?a (int j - 1) else ?a ! j)"
      by blast
    have dlen: "d < int (length a')" using du cap len by simp
    from run fnd Some cap sh d0 dlen
    have g': "g' = g\<lparr>distSize := a'[nat d := sz], distsUsed := ?u + 1\<rparr>"
      by (simp add: addDist_def MAXDISTCOUNT_def)
    let ?b = "a'[nat d := sz]"
    have val: "?b ! j = (if int j < d then ?a ! j else if int j = d then sz else ?a ! (j - 1))"
      if j: "int j \<le> ?u" for j
    proof -
      from j cap have jl: "j < length ?a" by simp
      show ?thesis
      proof (cases "int j = d")
        case True
        then have "nat d = j" by simp
        with jl len True show ?thesis by simp
      next
        case False
        then have ne: "nat d \<noteq> j" using d0 by auto
        have "?b ! j = a' ! j" using ne by simp
        also have "\<dots> = (if d \<le> int j \<and> int j \<le> ?u then peek stray ?a (int j - 1) else ?a ! j)"
          using nth jl by simp
        also have "\<dots> = (if int j < d then ?a ! j else ?a ! (j - 1))"
          using False j d0 jl by (auto simp add: peek_def nat_diff_distrib)
        finally show ?thesis using False by simp
      qed
    qed
    have old: "?a ! i > ?a ! j" if "i < j" "int j < ?u" for i j
    proof -
      from that have "j < length (take (nat ?u) ?a)" using ulen by simp
      with srt that(1) have "take (nat ?u) ?a ! i > take (nat ?u) ?a ! j"
        by (simp add: sorted_wrt_iff_nth_less)
      with that show ?thesis by simp
    qed
    have pk: "peek stray ?a i = ?a ! nat i" if "0 \<le> i" "i < ?u" for i
      using that ulen by (simp add: peek_def)
    have "sorted_wrt (>) (take (nat (?u + 1)) ?b)"
      unfolding sorted_wrt_iff_nth_less
    proof (intro allI impI)
      fix i j assume ij: "i < j" and jl: "j < length (take (nat (?u + 1)) ?b)"
      then have ju: "int j \<le> ?u" and iu: "int i \<le> ?u" by auto
      have "?b ! i > ?b ! j"
      proof -
        consider "int j < d" | "int j = d" | "int i < d" "d < int j" | "int i = d" "d < int j" | "d < int i"
          using ij by linarith
        then show ?thesis
        proof cases
          case 1
          then show ?thesis using val [OF ju] val [OF iu] ij old [of i j] du by simp
        next
          case 2
          then have "int i < d" using ij by simp
          with before have "sz < peek stray ?a (int i)" by simp
          with pk [of "int i"] \<open>int i < d\<close> du have "sz < ?a ! i" by simp
          with 2 \<open>int i < d\<close> show ?thesis using val [OF ju] val [OF iu] by simp
        next
          case 3
          have "i < j - 1 \<or> i = j - 1" using ij by linarith
          moreover have "int (j - 1) < ?u" using ju 3 by simp
          ultimately have "?a ! i > ?a ! (j - 1) \<or> i = j - 1" using old [of i "j - 1"] by blast
          moreover have "?a ! nat d > ?a ! (j - 1) \<or> nat d = j - 1" 
            using old [of "nat d" "j - 1"] \<open>int (j - 1) < ?u\<close> 3 d0 by (cases "nat d = j - 1") auto
          ultimately show ?thesis using val [OF ju] val [OF iu] 3 by auto
        next
          case 4
          then have dlt: "d < ?u" using ju by simp
          with at pk [of d] d0 have lt: "?a ! nat d < sz" by simp
          have "nat d = j - 1 \<or> ?a ! nat d > ?a ! (j - 1)"
            using old [of "nat d" "j - 1"] 4 ju d0 by (cases "nat d = j - 1") auto
          with lt have "?a ! (j - 1) < sz" by auto
          with 4 show ?thesis using val [OF ju] val [OF iu] by simp
        next
          case 5
          then have "i - 1 < j - 1" "int (j - 1) < ?u" using ij ju d0 by auto
          from old [OF this] 5 ij show ?thesis using val [OF ju] val [OF iu] by simp
        qed
      qed
      with jl show "take (nat (?u + 1)) ?b ! i > take (nat (?u + 1)) ?b ! j" using ij by simp
    qed
    with g' u0 cap len show ?thesis by (simp add: reg_inv_def registry_def)
  qed
qed

lemma registered_inv: "registered cap g \<Longrightarrow> reg_inv g \<and> length (distSize g) = cap"
proof (induction rule: registered.induct)
  case registered_init
  show ?case using reg_inv_init [of cap] by (simp add: init_globals_def)
next
  case (registered_add g stray sz g' tr)
  then show ?case using addDist_inv [of g stray sz g' tr] by simp
qed

text \<open>Claim C5 says that every read and write of \<open>distSize\<close> made by \<open>addDist\<close> uses
  an index in \<open>[0, MAXDISTCOUNT)\<close>. The code does otherwise: registering the first
  distance runs the shifting loop once with \<open>dd = 0\<close>, which reads \<open>distSize[-1]\<close>
  before it writes \<open>distSize[0]\<close>. The same happens whenever the new value is larger than
  every registered one.\<close>

theorem addDist_reads_below_array:
  "addDist 0 4096 (init_globals 10) =
     Inr ((init_globals 10)\<lparr>distSize := 4096 # replicate 9 0, distsUsed := 1\<rparr>,
          [Rd (- 1), Wr 0, Wr 0])"
  by code_simp

text \<open>Claim C6: after any sequence of registrations that stays within the capacity, the
  used part \<open>distSize[0 .. distsUsed)\<close> of the registry is strictly descending and holds
  no value twice.\<close>

theorem registry_strictly_descending:
  "registered cap g \<Longrightarrow>
     sorted_wrt (>) (registry g) \<and> distinct (registry g) \<and> length (registry g) = nat (distsUsed g)"
proof -
  assume r: "registered cap g"
  from registered_inv [OF r] have inv: "reg_inv g" by simp
  then have s: "sorted_wrt (>) (registry g)" by (simp add: reg_inv_def)
  have "distinct (registry g)"
    unfolding distinct_conv_nth
  proof (intro allI impI)
    fix i j assume "i < length (registry g)" "j < length (registry g)" "i \<noteq> j"
    then consider "i < j" | "j < i" by linarith
    then show "registry g ! i \<noteq> registry g ! j"
    proof cases
      case 1
      with s \<open>j < length (registry g)\<close> have "registry g ! j < registry g ! i"
        by (simp add: sorted_wrt_iff_nth_less)
      then show ?thesis by auto
    next
      case 2
      with s \<open>i < length (registry g)\<close> have "registry g ! i < registry g ! j"
        by (simp add: sorted_wrt_iff_nth_less)
      then show ?thesis by auto
    qed
  qed
  moreover have "length (registry g) = nat (distsUsed g)"
    using inv by (simp add: reg_inv_def registry_def) arith
  ultimately show ?thesis using s by simp
qed

lemma registered_example:
  "registered 4 ((init_globals 4)\<lparr>distSize := [4096, 1024, 64, 0], distsUsed := 3\<rparr>)"
proof -
  have 1: "addDist 0 1024 (init_globals 4) =
      Inr ((init_globals 4)\<lparr>distSize := [1024, 0, 0, 0], distsUsed := 1\<rparr>, [Rd (- 1), Wr 0, Wr 0])"
    by code_simp
  have 2: "addDist 0 64 ((init_globals 4)\<lparr>distSize := [1024, 0, 0, 0], distsUsed := 1\<rparr>) =
      Inr ((init_globals 4)\<lparr>distSize := [1024, 64, 0, 0], distsUsed := 2\<rparr>, [Rd 0, Rd 0, Rd 0, Wr 1, Wr 1])"
    by code_simp
  have 3: "addDist 0 4096 ((init_globals 4)\<lparr>distSize := [1024, 64, 0, 0], distsUsed := 2\<rparr>) =
      Inr ((init_globals 4)\<lparr>distSize := [4096, 1024, 64, 0], distsUsed := 3\<rparr>,
        [Rd 0, Rd 0, Rd 1, Wr 2, Rd 0, Wr 1, Rd (- 1), Wr 0, Wr 0])"
    by code_simp
  show ?thesis
    by (rule registered_add [OF registered_add [OF registered_add [OF registered_init 1] 2] 3])
qed

theorem registry_strictly_descending_witness:
  "registered 4 ((init_globals 4)\<lparr>distSize := [4096, 1024, 64, 0], distsUsed := 3\<rparr>) \<and>
   sorted_wrt (>) (registry ((init_globals 4)\<lparr>distSize := [4096, 1024, 64, 0], distsUsed := 3\<rparr>)) \<and>
   registry ((init_globals 4)\<lparr>distSize := [4096, 1024, 64, 0], distsUsed := 3\<rparr>) = [4096, 1024, 64]"
  using registered_example registry_strictly_descending [OF registered_example]
  by (simp add: registry_def init_globals_def)

text \<open>Claim C7: a call of \<open>addDist\<close> with a value that is already registered returns
  with all file-level variables as they were, \<open>distsUsed\<close> and every element of
  \<open>distSize\<close> included.\<close>

theorem addDist_idempotent:
  assumes r: "registered cap g" and mem: "sz \<in> set (registry g)"
  shows "\<exists>tr. addDist stray sz g = Inr (g, tr)"
proof -
  let ?a = "distSize g" and ?u = "distsUsed g"
  from registered_inv [OF r] have u0: "0 \<le> ?u" and ulen: "?u \<le> int (length ?a)"
    and srt: "sorted_wrt (>) (registry g)"
    by (simp_all add: reg_inv_def)
  from mem obtain k where k: "k < length (registry g)" and rk: "registry g ! k = sz"
    by (auto simp add: in_set_conv_nth)
  from k have ku: "int k < ?u" by (simp add: registry_def) arith
  have pk: "peek stray ?a (int i) = registry g ! i" if "int i < ?u" for i
    using that ulen by (simp add: peek_def registry_def)
  have "\<forall>i. 0 \<le> i \<and> i < int k \<longrightarrow> sz < peek stray ?a i"
  proof (intro allI impI)
    fix i :: int assume i: "0 \<le> i \<and> i < int k"
    then have "nat i < k" by arith
    with srt k have "registry g ! nat i > registry g ! k"
      by (simp add: sorted_wrt_iff_nth_less)
    with pk [of "nat i"] i ku rk show "sz < peek stray ?a i" by simp
  qed
  from addDist_find_None [OF _ ku _ this] pk [OF ku] rk
  have "fst (addDist_find stray ?a ?u sz 0) = None" by simp
  then obtain tr where "addDist_find stray ?a ?u sz 0 = (None, tr)"
    by (cases "addDist_find stray ?a ?u sz 0") simp
  then show ?thesis by (simp add: addDist_def)
qed

theorem addDist_idempotent_witness:
  "registered 4 ((init_globals 4)\<lparr>distSize := [4096, 1024, 64, 0], distsUsed := 3\<rparr>) \<and>
   1024 \<in> set (registry ((init_globals 4)\<lparr>distSize := [4096, 1024, 64, 0], distsUsed := 3\<rparr>)) \<and>
   (\<exists>tr. addDist 7 1024 ((init_globals 4)\<lparr>distSize := [4096, 1024, 64, 0], distsUsed := 3\<rparr>) =
      Inr ((init_globals 4)\<lparr>distSize := [4096, 1024, 64, 0], distsUsed := 3\<rparr>, tr))"
proof -
  have m: "1024 \<in> set (registry ((init_globals 4)\<lparr>distSize := [4096, 1024, 64, 0], distsUsed := 3\<rparr>))"
    by (simp add: registry_def init_globals_def)
  from addDist_idempotent [OF registered_example m, of 7] registered_example m
  show ?thesis by simp
qed

section \<open>Properties of the size normalizer\<close>

lemma unat_gcd_u64: "unat (gcd_u64 a b) = gcd (unat a) (unat b)"
proof (induction a b rule: gcd_u64.induct)
  case (1 a b)
  show ?case
  proof (cases "b = 0")
    case True
    then show ?thesis by (simp add: gcd_u64.simps [of a 0])
  next
    case False
    have "unat (gcd_u64 a b) = unat (gcd_u64 b (a mod b))"
      using False by (simp add: gcd_u64.simps [of a b])
    also have "\<dots> = gcd (unat b) (unat a mod unat b)"
      using "1.IH" [OF False] by (simp add: unat_mod)
    also have "\<dots> = gcd (unat a) (unat b)"
      by (metis gcd.commute gcd_red_nat)
    finally show ?thesis .
  qed
qed

lemma gcd_u64_gt1_iff: "1 < gcd_u64 a b \<longleftrightarrow> 1 < gcd (unat a) (unat b)"
  by (simp add: word_less_nat_alt unat_gcd_u64)

lemma gcd_u64_eq1_iff: "gcd_u64 a b = 1 \<longleftrightarrow> coprime (unat a) (unat b)"
proof -
  have "gcd_u64 a b = 1 \<longleftrightarrow> unat (gcd_u64 a b) = unat (1 :: u64)"
    by (simp only: word_unat_eq_iff)
  then show ?thesis by (simp add: unat_gcd_u64 coprime_iff_gcd_eq_1)
qed

text \<open>The distance from \<open>sz\<close> up to the next 1, counted around the 64-bit circle, falls
  with every increment.\<close>

lemma unat_succ_dist: "sz \<noteq> 1 \<Longrightarrow> unat (1 - (sz + 1)) < unat (1 - sz)" for sz :: u64
proof -
  assume "sz \<noteq> 1"
  then have "1 - sz \<noteq> 0" by auto
  from measure_unat [OF this] show ?thesis by (simp add: algebra_simps)
qed

lemma adjustSize_total: "\<exists>y. adjustSize sz diff = Some y"
proof (induction "unat (1 - sz)" arbitrary: sz rule: less_induct)
  case less
  show ?case
  proof (cases "1 < gcd_u64 sz diff")
    case False
    then show ?thesis by (simp add: adjustSize.simps [of sz diff])
  next
    case True
    then have "sz \<noteq> 1" by (auto simp add: gcd_u64_gt1_iff)
    from less [OF unat_succ_dist [OF this]] True show ?thesis
      by (simp add: adjustSize.simps [of sz diff])
  qed
qed

lemma adjustSize_exit: "adjustSize sz diff = Some y \<Longrightarrow> \<not> 1 < gcd_u64 y diff"
proof (induction "unat (1 - sz)" arbitrary: sz rule: less_induct)
  case less
  show ?case
  proof (cases "1 < gcd_u64 sz diff")
    case False
    with less.prems show ?thesis by (simp add: adjustSize.simps [of sz diff])
  next
    case True
    then have "sz \<noteq> 1" by (auto simp add: gcd_u64_gt1_iff)
    from less.hyps [OF unat_succ_dist [OF this]] True less.prems show ?thesis
      by (simp add: adjustSize.simps [of sz diff])
  qed
qed

lemma adjustSize_diff0: "sz \<noteq> 1 \<Longrightarrow> adjustSize sz 0 = Some 0"
proof (induction "unat (1 - sz)" arbitrary: sz rule: less_induct)
  case less
  show ?case
  proof (cases "sz = 0")
    case True
    then show ?thesis by (simp add: adjustSize.simps [of 0 0] gcd_u64.simps [of 0 0])
  next
    case False
    with less.prems have "1 < unat sz" by (metis One_nat_def less_one linorder_neqE_nat unat_0 unat_1 word_unat_eq_iff)
    then have g: "1 < gcd_u64 sz 0" by (simp add: gcd_u64_gt1_iff)
    have "sz + 1 \<noteq> 1" using False by simp
    from less.hyps [OF unat_succ_dist [OF less.prems] this] g show ?thesis
      by (simp add: adjustSize.simps [of sz 0])
  qed
qed

text \<open>With the stride 0 and 2 blocks the loop condition holds at each of the first
  \<open>2^64 - 2\<close> values of \<open>size\<close>: the loop ends only after that many increments, when
  \<open>size\<close> has wrapped around to 0.\<close>

lemma adjustSize_stride_zero_loop:
  fixes k :: u64
  assumes "unat k < 2 ^ 64 - 2"
  shows "1 < gcd_u64 (2 + k) 0"
proof -
  from assms have "unat (2 :: u64) + unat k < 2 ^ LENGTH(64)" by simp
  then have "unat (2 + k) = 2 + unat k" using unat_add_lem [of 2 k] by simp
  then have "1 < unat (2 + k)" by simp
  then show ?thesis by (simp add: gcd_u64_gt1_iff)
qed

text \<open>Among any \<open>d\<close> consecutive numbers one is coprime to \<open>d\<close>.\<close>

lemma coprime_Suc_mult: "coprime (k * d + 1) d" for k d :: nat
  by (metis coprime_mult_right_iff coprime_add_one_left)

lemma coprime_in_window:
  fixes b d :: nat
  assumes "0 < d"
  shows "\<exists>x. b \<le> x \<and> x < b + d \<and> coprime x d"
proof (cases "d = 1")
  case True
  then show ?thesis by (intro exI [of _ b]) simp
next
  case False
  with assms have d2: "2 \<le> d" by simp
  define r where "r = b mod d"
  define q where "q = b div d"
  define m where "m = q * d"
  have b: "b = m + r" by (simp add: m_def q_def r_def)
  have r: "r < d" using assms by (simp add: r_def)
  show ?thesis
  proof (cases "r \<le> 1")
    case True
    have "b \<le> m + 1 \<and> m + 1 < b + d" using b True d2 by linarith
    then show ?thesis unfolding m_def using coprime_Suc_mult [of q d] by blast
  next
    case False
    have "(q + 1) * d = m + d" by (simp add: m_def)
    moreover have "b \<le> m + d + 1 \<and> m + d + 1 < b + d" using b False r by linarith
    ultimately have "b \<le> (q + 1) * d + 1 \<and> (q + 1) * d + 1 < b + d" by simp
    then show ?thesis using coprime_Suc_mult [of "q + 1" d] by blast
  qed
qed

lemma unat_plus_one: "unat sz + 1 < 2 ^ 64 \<Longrightarrow> unat (sz + 1) = unat sz + 1" for sz :: u64
  using unat_add_lem [of sz 1] by simp

lemma adjustSize_upto:
  "unat sz \<le> x \<Longrightarrow> x < 2 ^ 64 \<Longrightarrow> coprime x (unat diff) \<Longrightarrow>
     \<exists>y. adjustSize sz diff = Some y \<and> unat sz \<le> unat y \<and> unat y \<le> x"
proof (induction "x - unat sz" arbitrary: sz rule: less_induct)
  case less
  show ?case
  proof (cases "1 < gcd_u64 sz diff")
    case False
    with less.prems show ?thesis by (simp add: adjustSize.simps [of sz diff])
  next
    case True
    then have "\<not> coprime (unat sz) (unat diff)"
      by (simp add: gcd_u64_gt1_iff coprime_iff_gcd_eq_1)
    with less.prems have lt: "unat sz < x" by (cases "unat sz = x") auto
    with less.prems have u: "unat (sz + 1) = unat sz + 1" 
      by (intro unat_plus_one) arith
    have m: "x - unat (sz + 1) < x - unat sz" using u lt by arith
    have le: "unat (sz + 1) \<le> x" using u lt by arith
    from less.hyps [OF m le less.prems(2,3)]
    obtain y where "adjustSize (sz + 1) diff = Some y \<and> unat (sz + 1) \<le> unat y \<and> unat y \<le> x"
      by blast
    with True u show ?thesis by (simp add: adjustSize.simps [of sz diff])
  qed
qed


lemma adjustSize_bound:
  assumes d: "diff \<noteq> 0" and nowrap: "unat sz + unat diff \<le> 2 ^ 64"
  shows "\<exists>y. adjustSize sz diff = Some y \<and> sz \<le> y \<and> unat y < unat sz + unat diff \<and>
           gcd_u64 y diff = 1"
proof -
  from d have d0: "0 < unat diff" by (simp add: unat_gt_0)
  from coprime_in_window [OF d0, of "unat sz"]
  obtain x where x: "unat sz \<le> x" "x < unat sz + unat diff" "coprime x (unat diff)" by blast
  with nowrap have "x < 2 ^ 64" by simp
  from adjustSize_upto [OF x(1) this x(3)]
  obtain y where y: "adjustSize sz diff = Some y" "unat sz \<le> unat y" "unat y \<le> x" by blast
  from adjustSize_exit [OF y(1)] have "gcd (unat y) (unat diff) \<le> 1"
    by (simp add: gcd_u64_gt1_iff)
  moreover have "gcd (unat y) (unat diff) \<noteq> 0" using d0 by simp
  ultimately have "gcd (unat y) (unat diff) = 1" by linarith
  then have "gcd_u64 y diff = 1" by (simp add: gcd_u64_eq1_iff coprime_iff_gcd_eq_1)
  with y x show ?thesis by (auto simp add: word_le_nat_alt)
qed

lemma stride_zero_initBufs_dists: "initBufs_dists 0 stride_zero_example = Inr stride_zero_dists"
  by code_simp

lemma stride_zero_raw: "raw_blocks stride_zero_dists = 2"
  by code_simp

lemma stride_zero_policy: "stride_policy (pseudoRandom stride_zero_dists) 2 = 0"
  by code_simp

text \<open>Claim C2 says that the result \<open>B\<close> of \<open>adjustSize B0 S\<close> always has
  \<open>gcd(B,S) = 1\<close> and \<open>B \<ge> B0\<close>. The code does otherwise for the stride 0, which the
  stride policy produces for fewer than 3 raw blocks. With no distance registered the call
  is \<open>adjustSize(0,0)\<close>, which returns 0 at once, and \<open>gcd(0,0) = 0\<close>. With a largest
  distance of 128 bytes the call is \<open>adjustSize(2,0)\<close>: \<open>gcd(size, 0) = size\<close> stays above
  1 until \<open>size\<close> wraps around to 0, and the result is 0 again, below the 2 blocks asked
  for; \<open>initBufs\<close> ends with \<open>blocks = 0\<close>.\<close>

theorem adjustSize_stride_zero:
  "adjustSize 0 0 = Some 0 \<and> gcd_u64 0 0 \<noteq> 1 \<and>
   raw_blocks stride_zero_dists = 2 \<and> stride_policy (pseudoRandom stride_zero_dists) 2 = 0 \<and>
   adjustSize 2 0 = Some 0 \<and> \<not> (2 :: u64) \<le> 0 \<and>
   initBufs stride_zero_example = Some (Inr stride_zero_dists)"
proof -
  have a: "adjustSize 2 0 = Some 0" "adjustSize 0 0 = Some 0"
    by (simp_all add: adjustSize_diff0)
  have g: "gcd_u64 0 0 \<noteq> 1"
    by (simp add: gcd_u64.simps [of 0 0])
  have l: "length (distSize stride_zero_dists) \<noteq> 0"
    by (simp add: stride_zero_dists_def)
  have u: "stride_zero_dists\<lparr>blocks := 0, blockDiff := 0\<rparr> = stride_zero_dists"
    by (simp add: stride_zero_dists_def)
  have "initBufs stride_zero_example = Some (Inr stride_zero_dists)"
    using l by (simp add: initBufs_def stride_zero_initBufs_dists stride_zero_raw
        stride_zero_policy a u)
  with a g stride_zero_raw stride_zero_policy show ?thesis by simp
qed

section \<open>Properties of the benchmark executor\<close>

lemma for_j_inv:
  "(\<And>s s'. P s \<Longrightarrow> body s = Inr s' \<Longrightarrow> P s') \<Longrightarrow> P s \<Longrightarrow> for_j body mx j s = Inr s' \<Longrightarrow> P s'"
proof (induction body mx j s rule: for_j.induct)
  case (1 body mx j s)
  show ?case
  proof (cases "j < mx")
    case False
    with "1.prems" show ?thesis by (simp add: for_j.simps [of body mx j s])
  next
    case True
    with "1.prems"(3) obtain s1 where b: "body s = Inr s1" and rest: "for_j body mx (j + 1) s1 = Inr s'"
      by (auto simp add: for_j.simps [of body mx j s] split: sum.splits)
    from "1.prems"(1) [OF "1.prems"(2) b] have "P s1" .
    from "1.IH" [OF True b "1.prems"(1) this rest] show ?thesis .
  qed
qed

lemma for_k_inv:
  "(\<And>s s'. P s \<Longrightarrow> body s = Inr s' \<Longrightarrow> P s') \<Longrightarrow> P s \<Longrightarrow> for_k body n k s = Inr s' \<Longrightarrow> P s'"
proof (induction body n k s rule: for_k.induct)
  case (1 body n k s)
  show ?case
  proof (cases "(word_of_int k :: u64) < n")
    case False
    with "1.prems" show ?thesis by (simp add: for_k.simps [of body n k s])
  next
    case True
    with "1.prems"(3) obtain s1 where b: "body s = Inr s1" and k: "\<not> 2147483647 \<le> k"
      and rest: "for_k body n (k + 1) s1 = Inr s'"
      by (auto simp add: for_k.simps [of body n k s] split: sum.splits if_splits)
    from "1.prems"(1) [OF "1.prems"(2) b] have "P s1" .
    from "1.IH" [OF True b k "1.prems"(1) this rest] show ?thesis .
  qed
qed

lemma for_d_inv:
  assumes t: "\<And>r r'. P r \<Longrightarrow> touch_first F r = Inr r' \<Longrightarrow> P r'"
    and tr: "\<And>d r r'. P r \<Longrightarrow> traverse F g bt d r = Inr r' \<Longrightarrow> P r'"
  shows "P r \<Longrightarrow> for_d F g bt d r = Inr r' \<Longrightarrow> P r'"
proof (induction "nat (distsUsed g - d)" arbitrary: d r rule: less_induct)
  case less
  show ?case
  proof (cases "d < distsUsed g")
    case False
    with less.prems show ?thesis by (simp add: for_d.simps [of F g bt d r])
  next
    case True
    have rng: "0 \<le> d \<and> nat d < length (distIter g) \<and> nat d < length (distBlocks g)"
      using less.prems(2) True by (subst (asm) for_d.simps) (simp split: if_splits)
    obtain r1 where a: "touch_first F r = Inr r1"
      using less.prems(2) True rng
      by (subst (asm) for_d.simps) (cases "touch_first F r"; simp)
    obtain r2 where b: "for_k (traverse F g bt d) (distIter g ! nat d) 0 r1 = Inr r2"
      using less.prems(2) True rng a
      by (subst (asm) for_d.simps) (cases "for_k (traverse F g bt d) (distIter g ! nat d) 0 r1"; simp)
    have rest: "for_d F g bt (d + 1) r2 = Inr r'"
      using less.prems(2) True rng a b
      by (subst (asm) for_d.simps) simp
    from t [OF less.prems(1) a] have p1: "P r1" .
    have p2: "P r2" by (rule for_k_inv [of P "traverse F g bt d", OF tr p1 b])
    have m: "nat (distsUsed g - (d + 1)) < nat (distsUsed g - d)" using True by simp
    from less.hyps [OF m p2 rest] show ?thesis .
  qed
qed

lemma word_succ_measure: "i < n \<Longrightarrow> unat n - unat (i + 1) < unat n - unat i" for i n :: u64
proof -
  assume "i < n"
  then have lt: "unat i < unat n" by (simp add: word_less_nat_alt)
  moreover have "unat n < 2 ^ 64" using unsigned_less [of n, where ?'a = nat] by simp
  ultimately have "unat i + unat (1 :: u64) < 2 ^ LENGTH(64)" by simp
  then have "unat (i + 1) = unat i + 1" using unat_add_lem [of i 1] by simp
  with lt show ?thesis by simp
qed

lemma for_i_inv:
  assumes t: "\<And>r r'. P r \<Longrightarrow> touch_first F r = Inr r' \<Longrightarrow> P r'"
    and tr: "\<And>d r r'. P r \<Longrightarrow> traverse F g bt d r = Inr r' \<Longrightarrow> P r'"
  shows "P r \<Longrightarrow> for_i F g bt iter i r = Inr r' \<Longrightarrow> P r'"
proof (induction "unat iter - unat i" arbitrary: i r rule: less_induct)
  case less
  show ?case
  proof (cases "i < iter")
    case False
    with less.prems show ?thesis by (simp add: for_i.simps [of F g bt iter i r])
  next
    case True
    obtain r1 where a: "touch_first F r = Inr r1"
      using less.prems(2) True
      by (subst (asm) for_i.simps) (cases "touch_first F r"; simp)
    obtain r2 where b: "for_d F g bt 0 r1 = Inr r2"
      using less.prems(2) True a
      by (subst (asm) for_i.simps) (cases "for_d F g bt 0 r1"; simp)
    have rest: "for_i F g bt iter (i + 1) r2 = Inr r'"
      using less.prems(2) True a b
      by (subst (asm) for_i.simps) simp
    from t [OF less.prems(1) a] have p1: "P r1" .
    have p2: "P r2" by (rule for_d_inv [of P F g bt, OF t tr p1 b])
    from less.hyps [OF word_succ_measure [OF True] p2 rest] show ?thesis .
  qed
qed

text \<open>What the loop bodies leave alone.\<close>

lemma step_seq_read_keeps: "step_seq_read F a b s = Inr s' \<Longrightarrow> buffer (snd s') = buffer (snd s) \<and> aCount (snd s') = aCount (snd s)"
  by (cases s) (auto simp add: step_seq_read_def add_sum_def split: if_splits)

lemma step_chain_read_keeps: "step_chain_read F s = Inr s' \<Longrightarrow> buffer (snd s') = buffer (snd s) \<and> aCount (snd s') = aCount (snd s)"
  by (cases s) (auto simp add: step_chain_read_def add_sum_def split: if_splits option.splits)

lemma step_seq_write_keeps: "step_seq_write F a b s = Inr s' \<Longrightarrow> aCount (snd s') = aCount (snd s)"
  by (cases s) (auto simp add: step_seq_write_def add_sum_def Let_def split: if_splits)

lemma step_chain_write_keeps: "step_chain_write F s = Inr s' \<Longrightarrow> aCount (snd s') = aCount (snd s)"
  by (cases s) (auto simp add: step_chain_write_def add_sum_def Let_def split: if_splits option.splits)

lemma touch_first_keeps: "touch_first F r = Inr r' \<Longrightarrow> buffer r' = buffer r \<and> aCount r' = aCount r"
  by (auto simp add: touch_first_def add_sum_def split: if_splits)

lemma traverse_readonly:
  assumes "traverse F g bt d r = Inr r'" and "bt = 0 \<or> bt = 1"
  shows "buffer r' = buffer r"
proof -
  let ?r1 = "r\<lparr>aCount := aCount r + distBlocks g ! nat d\<rparr>"
  from assms(2) show ?thesis
  proof
    assume bt: "bt = 0"
    with assms(1) obtain s' where run: "for_j (step_seq_read F (idxIncr_of g) (idxMax_of g)) (distBlocks g ! nat d) 0 (0, ?r1) = Inr s'"
      and r': "r' = snd s'"
      by (auto simp add: traverse_def Let_def map_sum_def split: sum.splits)
    have "buffer (snd s') = buffer r"
      by (rule for_j_inv [where P = "\<lambda>s. buffer (snd s) = buffer r", OF _ _ run])
         (auto dest: step_seq_read_keeps)
    with r' show ?thesis by simp
  next
    assume bt: "bt = 1"
    with assms(1) obtain s' where run: "for_j (step_chain_read F) (distBlocks g ! nat d) 0 (Some 0, ?r1) = Inr s'"
      and r': "r' = snd s'"
      by (auto simp add: traverse_def Let_def map_sum_def split: sum.splits)
    have "buffer (snd s') = buffer r"
      by (rule for_j_inv [where P = "\<lambda>s. buffer (snd s) = buffer r", OF _ _ run])
         (auto dest: step_chain_read_keeps)
    with r' show ?thesis by simp
  qed
qed

lemma runBench_readonly_once:
  assumes run: "runBench F g buf iter depChain 0 sum0 aCnt = Inr r"
    and dc: "depChain = 0 \<or> depChain = 1"
  shows "buffer r = buf \<and> map val (buffer r) = map val buf"
proof -
  let ?r0 = "\<lparr>buffer = buf, lsum = sum0, aCount = aCnt, reads = []\<rparr>"
  from run have f: "for_i F g depChain iter 0 ?r0 = Inr r" by (simp add: runBench_def)
  have "buffer r = buf"
  proof (rule for_i_inv [where P = "\<lambda>r. buffer r = buf", OF _ _ _ f])
    show "\<And>r r'. buffer r = buf \<Longrightarrow> touch_first F r = Inr r' \<Longrightarrow> buffer r' = buf"
      by (auto dest: touch_first_keeps)
    show "\<And>d r r'. buffer r = buf \<Longrightarrow> traverse F g depChain d r = Inr r' \<Longrightarrow> buffer r' = buf"
      using traverse_readonly [OF _ dc] by auto
    show "buffer ?r0 = buf" by simp
  qed
  then show ?thesis by simp
qed

lemma example_initBufs:
  "initBufs ((init_globals 4)\<lparr>distSize := [128, 64, 0, 0], distsUsed := 2\<rparr>) =
     Some (Inr example_globals)"
  by code_simp

lemma example_init_memory:
  "init_memory_per_thread example_ops example_globals = Inr example_buffer"
  by code_simp

lemma example_run_chain_read:
  "runBench example_ops example_globals example_buffer 2 1 0 10 100 =
     Inr \<lparr>buffer = example_buffer, lsum = 18, aCount = 108,
          reads = [0, 0, 0, 4, 0, 0, 0, 0, 0, 0, 4, 0, 0, 0]\<rparr>"
  by code_simp

lemma example_run_seq_write:
  "runBench example_ops example_globals example_buffer 1 0 1 10 100 =
     Inr \<lparr>buffer = example_buffer[0 := \<lparr>val = 3, nxt = Some 4\<rparr>, 4 := \<lparr>val = 5, nxt = Some 0\<rparr>],
          lsum = 22, aCount = 104, reads = [0, 0, 1, 5, 1, 2, 3]\<rparr>"
  by code_simp

text \<open>Claim C8: a call of \<open>runBench\<close> with \<open>doWrite = 0\<close> (and \<open>depChain\<close> 0 or 1, that
  is \<open>benchType\<close> 0 or 1) leaves the buffer as it was, for every buffer and iteration
  count, and so does any number of such calls in a row; in particular the payload of every
  entry is unchanged. The statement is about calls that return; a call that runs into a
  fault has not written to the buffer either, since no read-only loop body writes.\<close>

theorem runBench_readonly_keeps_buffer:
  assumes dc: "depChain = 0 \<or> depChain = 1"
    and run: "runBench_calls F g iter depChain 0 m r0 = Inr r"
  shows "buffer r = buffer r0 \<and> map val (buffer r) = map val (buffer r0)"
proof -
  have "buffer r = buffer r0" using run
  proof (induction m arbitrary: r0)
    case 0
    then show ?case by simp
  next
    case (Suc m)
    from Suc.prems obtain r1
      where one: "runBench F g (buffer r0) iter depChain 0 (lsum r0) (aCount r0) = Inr r1"
        and rest: "runBench_calls F g iter depChain 0 m r1 = Inr r"
      by (cases "runBench F g (buffer r0) iter depChain 0 (lsum r0) (aCount r0)") simp_all
    from runBench_readonly_once [OF one dc] have "buffer r1 = buffer r0" by simp
    with Suc.IH [OF rest] show ?case by simp
  qed
  then show ?thesis by simp
qed

lemma example_two_calls:
  "runBench_calls example_ops example_globals 2 1 0 2
       \<lparr>buffer = example_buffer, lsum = 10, aCount = 100, reads = []\<rparr> =
     Inr \<lparr>buffer = example_buffer, lsum = 26, aCount = 116,
          reads = [0, 0, 0, 4, 0, 0, 0, 0, 0, 0, 4, 0, 0, 0]\<rparr>"
  by code_simp

theorem runBench_readonly_keeps_buffer_witness:
  "((1 :: int) = 0 \<or> (1 :: int) = 1) \<and>
   (\<exists>r. runBench_calls example_ops example_globals 2 1 0 2
            \<lparr>buffer = example_buffer, lsum = 10, aCount = 100, reads = []\<rparr> = Inr r \<and>
        buffer r = example_buffer \<and> map val (buffer r) = map val example_buffer)"
proof -
  have dc: "(1 :: int) = 0 \<or> (1 :: int) = 1" by simp
  from runBench_readonly_keeps_buffer [OF dc example_two_calls] example_two_calls dc
  show ?thesis by simp
qed

lemma traverse_count:
  assumes "traverse F g bt d r = Inr r'"
  shows "aCount r' = aCount r + distBlocks g ! nat d"
proof -
  let ?mx = "distBlocks g ! nat d"
  let ?r1 = "r\<lparr>aCount := aCount r + ?mx\<rparr>"
  have keep: "aCount (snd s') = aCount ?r1"
    if "for_j body ?mx 0 (c, ?r1) = Inr s'"
      and "\<And>s s'. body s = Inr s' \<Longrightarrow> aCount (snd s') = aCount (snd s)"
    for body :: "'c \<times> 'a run \<Rightarrow> error + 'c \<times> 'a run" and c s'
    using for_j_inv [of "\<lambda>s. aCount (snd s) = aCount ?r1" body "(c, ?r1)" ?mx 0 s'] that
    by simp
  consider "bt = 0" | "bt = 1" | "bt = 2" | "bt = 3" | "bt \<noteq> 0 \<and> bt \<noteq> 1 \<and> bt \<noteq> 2 \<and> bt \<noteq> 3"
    by blast
  then show ?thesis
  proof cases
    case 1
    with assms obtain s' where run: "for_j (step_seq_read F (idxIncr_of g) (idxMax_of g)) ?mx 0 (0, ?r1) = Inr s'"
      and r': "r' = snd s'"
      by (auto simp add: traverse_def Let_def map_sum_def split: sum.splits)
    from keep [OF run] r' show ?thesis by (auto dest: step_seq_read_keeps)
  next
    case 2
    with assms obtain s' where run: "for_j (step_chain_read F) ?mx 0 (Some 0, ?r1) = Inr s'"
      and r': "r' = snd s'"
      by (auto simp add: traverse_def Let_def map_sum_def split: sum.splits)
    from keep [OF run] r' show ?thesis by (auto dest: step_chain_read_keeps)
  next
    case 3
    with assms obtain s' where run: "for_j (step_seq_write F (idxIncr_of g) (idxMax_of g)) ?mx 0 (0, ?r1) = Inr s'"
      and r': "r' = snd s'"
      by (auto simp add: traverse_def Let_def map_sum_def split: sum.splits)
    from keep [OF run] r' show ?thesis by (auto dest: step_seq_write_keeps)
  next
    case 4
    with assms obtain s' where run: "for_j (step_chain_write F) ?mx 0 (Some 0, ?r1) = Inr s'"
      and r': "r' = snd s'"
      by (auto simp add: traverse_def Let_def map_sum_def split: sum.splits)
    from keep [OF run] r' show ?thesis by (auto dest: step_chain_write_keeps)
  next
    case 5
    with assms show ?thesis by (simp add: traverse_def Let_def)
  qed
qed

lemma for_k_count:
  assumes step: "\<And>s s'. body s = Inr s' \<Longrightarrow> aCount s' = aCount s + c"
  shows "word_of_int k \<le> n \<Longrightarrow> for_k body n k s = Inr s' \<Longrightarrow>
     aCount s' = aCount s + (n - word_of_int k) * c"
proof (induction "nat (2147483647 - k)" arbitrary: k s rule: less_induct)
  case less
  show ?case
  proof (cases "(word_of_int k :: u64) < n")
    case False
    with less.prems(1) have "n = word_of_int k" by simp
    moreover from False less.prems(2) have "s' = s" by (simp add: for_k.simps [of body n k s])
    ultimately show ?thesis by simp
  next
    case True
    obtain s1 where b: "body s = Inr s1"
      using less.prems(2) True by (subst (asm) for_k.simps) (cases "body s"; simp)
    have k: "\<not> 2147483647 \<le> k"
      using less.prems(2) True b by (subst (asm) for_k.simps) (simp split: if_splits)
    have rest: "for_k body n (k + 1) s1 = Inr s'"
      using less.prems(2) True b k by (subst (asm) for_k.simps) simp
    have le: "(word_of_int (k + 1) :: u64) \<le> n" using True by (simp add: inc_le)
    have m: "nat (2147483647 - (k + 1)) < nat (2147483647 - k)" using k by simp
    from less.hyps [OF m le rest] step [OF b]
    show ?thesis by (simp add: algebra_simps)
  qed
qed

lemma for_d_count:
  "for_d F g bt d r = Inr r' \<Longrightarrow>
     aCount r' = aCount r +
       sum_list (map (\<lambda>d. distIter g ! d * distBlocks g ! d) [nat d..<nat (distsUsed g)])"
proof (induction "nat (distsUsed g - d)" arbitrary: d r rule: less_induct)
  case less
  show ?case
  proof (cases "d < distsUsed g")
    case False
    then have "nat (distsUsed g) \<le> nat d" by simp
    then have "map (\<lambda>d. distIter g ! d * distBlocks g ! d) [nat d..<nat (distsUsed g)] = []"
      using upt_eq_Nil_conv [of "nat d" "nat (distsUsed g)"] by (cases "nat (distsUsed g) = 0") auto
    moreover from False less.prems have "r' = r" by (simp add: for_d.simps [of F g bt d r])
    ultimately show ?thesis by (simp only: sum_list.Nil add_0_right)
  next
    case True
    have rng: "0 \<le> d \<and> nat d < length (distIter g) \<and> nat d < length (distBlocks g)"
      using less.prems True by (subst (asm) for_d.simps) (simp split: if_splits)
    obtain r1 where a: "touch_first F r = Inr r1"
      using less.prems True rng
      by (subst (asm) for_d.simps) (cases "touch_first F r"; simp)
    obtain r2 where b: "for_k (traverse F g bt d) (distIter g ! nat d) 0 r1 = Inr r2"
      using less.prems True rng a
      by (subst (asm) for_d.simps) (cases "for_k (traverse F g bt d) (distIter g ! nat d) 0 r1"; simp)
    have rest: "for_d F g bt (d + 1) r2 = Inr r'"
      using less.prems True rng a b
      by (subst (asm) for_d.simps) simp
    have c1: "aCount r1 = aCount r" using touch_first_keeps [OF a] by simp
    have c2: "aCount r2 = aCount r1 + distIter g ! nat d * distBlocks g ! nat d"
      using for_k_count [of "traverse F g bt d" "distBlocks g ! nat d" 0 "distIter g ! nat d" r1 r2,
          OF traverse_count _ b] by simp
    have m: "nat (distsUsed g - (d + 1)) < nat (distsUsed g - d)" using True by simp
    have u: "[nat d..<nat (distsUsed g)] = nat d # [nat (d + 1)..<nat (distsUsed g)]"
      using True rng by (simp add: upt_conv_Cons nat_add_distrib)
    from less.hyps [OF m rest] c1 c2 u show ?thesis by (simp add: algebra_simps)
  qed
qed

lemma for_i_count:
  "i \<le> iter \<Longrightarrow> for_i F g bt iter i r = Inr r' \<Longrightarrow>
     aCount r' = aCount r + (iter - i) * accesses_per_iteration g"
proof (induction "unat iter - unat i" arbitrary: i r rule: less_induct)
  case less
  show ?case
  proof (cases "i < iter")
    case False
    with less.prems(1) have "iter = i" by simp
    moreover from False less.prems(2) have "r' = r" by (simp add: for_i.simps [of F g bt iter i r])
    ultimately show ?thesis by simp
  next
    case True
    obtain r1 where a: "touch_first F r = Inr r1"
      using less.prems(2) True
      by (subst (asm) for_i.simps) (cases "touch_first F r"; simp)
    obtain r2 where b: "for_d F g bt 0 r1 = Inr r2"
      using less.prems(2) True a
      by (subst (asm) for_i.simps) (cases "for_d F g bt 0 r1"; simp)
    have rest: "for_i F g bt iter (i + 1) r2 = Inr r'"
      using less.prems(2) True a b
      by (subst (asm) for_i.simps) simp
    have c1: "aCount r1 = aCount r" using touch_first_keeps [OF a] by simp
    have c2: "aCount r2 = aCount r1 + accesses_per_iteration g"
      using for_d_count [OF b] by (simp add: accesses_per_iteration_def)
    have le: "i + 1 \<le> iter" using True by (simp add: inc_le)
    from less.hyps [OF word_succ_measure [OF True] le rest] c1 c2
    show ?thesis by (simp add: algebra_simps)
  qed
qed

text \<open>The counter grows by \<open>iter\<close> times the accesses of one outer iteration, in the
  arithmetic of \<open>u64\<close>.\<close>

lemma runBench_access_count:
  "runBench F g buf iter depChain doWrite sum0 aCnt = Inr r \<Longrightarrow>
     aCount r = aCnt + iter * accesses_per_iteration g"
  using for_i_count [of 0 iter F g "depChain + 2 * doWrite"
      "\<lparr>buffer = buf, lsum = sum0, aCount = aCnt, reads = []\<rparr>" r]
  by (simp add: runBench_def)

lemma add_sum_fold:
  "lsum r = foldl (dadd F) s0 (reads r) \<Longrightarrow> lsum (add_sum F x r) = foldl (dadd F) s0 (reads (add_sum F x r))"
  by (simp add: add_sum_def)

lemma sum_ok_add_sum [simp]: "sum_ok F s0 r \<Longrightarrow> sum_ok F s0 (add_sum F x r)"
  by (simp add: sum_ok_def add_sum_def)

lemma sum_ok_upd [simp]:
  "sum_ok F s0 (r\<lparr>aCount := a\<rparr>) = sum_ok F s0 r"
  "sum_ok F s0 (r\<lparr>buffer := b\<rparr>) = sum_ok F s0 r"
  by (simp_all add: sum_ok_def)

lemma steps_sum_ok:
  "sum_ok F s0 (snd s) \<Longrightarrow> step_seq_read F a b s = Inr s' \<Longrightarrow> sum_ok F s0 (snd s')"
  "sum_ok F s0 (snd t) \<Longrightarrow> step_chain_read F t = Inr t' \<Longrightarrow> sum_ok F s0 (snd t')"
  "sum_ok F s0 (snd s) \<Longrightarrow> step_seq_write F a b s = Inr s' \<Longrightarrow> sum_ok F s0 (snd s')"
  "sum_ok F s0 (snd t) \<Longrightarrow> step_chain_write F t = Inr t' \<Longrightarrow> sum_ok F s0 (snd t')"
     apply (cases s; auto simp add: step_seq_read_def split: if_splits)
    apply (cases t; auto simp add: step_chain_read_def split: if_splits option.splits)
   apply (cases s; auto simp add: step_seq_write_def Let_def split: if_splits)
  apply (cases t; auto simp add: step_chain_write_def Let_def split: if_splits option.splits)
  done

lemma traverse_sum_ok:
  assumes "sum_ok F s0 r" "traverse F g bt d r = Inr r'"
  shows "sum_ok F s0 r'"
proof -
  let ?mx = "distBlocks g ! nat d"
  let ?r1 = "r\<lparr>aCount := aCount r + ?mx\<rparr>"
  have keep: "sum_ok F s0 (snd s')"
    if "for_j body ?mx 0 (c, ?r1) = Inr s'"
      and "\<And>s s'. sum_ok F s0 (snd s) \<Longrightarrow> body s = Inr s' \<Longrightarrow> sum_ok F s0 (snd s')"
    for body :: "'c \<times> 'a run \<Rightarrow> error + 'c \<times> 'a run" and c s'
    using for_j_inv [of "\<lambda>s. sum_ok F s0 (snd s)" body "(c, ?r1)" ?mx 0 s'] that assms(1)
    by simp
  consider "bt = 0" | "bt = 1" | "bt = 2" | "bt = 3" | "bt \<noteq> 0 \<and> bt \<noteq> 1 \<and> bt \<noteq> 2 \<and> bt \<noteq> 3"
    by blast
  then show ?thesis
  proof cases
    case 1
    with assms obtain s' where run: "for_j (step_seq_read F (idxIncr_of g) (idxMax_of g)) ?mx 0 (0, ?r1) = Inr s'"
      and r': "r' = snd s'"
      by (auto simp add: traverse_def Let_def map_sum_def split: sum.splits)
    from keep [OF run] r' show ?thesis by (auto dest: steps_sum_ok)
  next
    case 2
    with assms obtain s' where run: "for_j (step_chain_read F) ?mx 0 (Some 0, ?r1) = Inr s'"
      and r': "r' = snd s'"
      by (auto simp add: traverse_def Let_def map_sum_def split: sum.splits)
    from keep [OF run] r' show ?thesis by (auto dest: steps_sum_ok)
  next
    case 3
    with assms obtain s' where run: "for_j (step_seq_write F (idxIncr_of g) (idxMax_of g)) ?mx 0 (0, ?r1) = Inr s'"
      and r': "r' = snd s'"
      by (auto simp add: traverse_def Let_def map_sum_def split: sum.splits)
    from keep [OF run] r' show ?thesis by (auto dest: steps_sum_ok)
  next
    case 4
    with assms obtain s' where run: "for_j (step_chain_write F) ?mx 0 (Some 0, ?r1) = Inr s'"
      and r': "r' = snd s'"
      by (auto simp add: traverse_def Let_def map_sum_def split: sum.splits)
    from keep [OF run] r' show ?thesis by (auto dest: steps_sum_ok)
  next
    case 5
    with assms show ?thesis by (simp add: traverse_def Let_def)
  qed
qed

text \<open>Claim C10: \<open>runBench\<close> adds to the sum it is given. When a call returns, the value
  stored to \<open>*sum\<close> is the initial value with every value read added to it, one after the
  other in the order of the reads (\<open>dadd\<close> stands for the addition of \<open>double\<close>, which
  rounds, so the order is part of the statement). With \<open>iter = 0\<close> the call returns,
  nothing is read and \<open>*sum\<close> comes back unchanged.\<close>

theorem runBench_accumulates:
  "(runBench F g buf iter depChain doWrite sum0 aCnt = Inr r \<longrightarrow>
      lsum r = foldl (dadd F) sum0 (reads r)) \<and>
   runBench F g buf 0 depChain doWrite sum0 aCnt =
      Inr \<lparr>buffer = buf, lsum = sum0, aCount = aCnt, reads = []\<rparr>"
proof (intro conjI impI)
  let ?r0 = "\<lparr>buffer = buf, lsum = sum0, aCount = aCnt, reads = []\<rparr>"
  assume "runBench F g buf iter depChain doWrite sum0 aCnt = Inr r"
  then have f: "for_i F g (depChain + 2 * doWrite) iter 0 ?r0 = Inr r" by (simp add: runBench_def)
  have "sum_ok F sum0 r"
  proof (rule for_i_inv [of "sum_ok F sum0" F g "depChain + 2 * doWrite" ?r0 iter 0 r, OF _ _ _ f])
    show "\<And>r r'. sum_ok F sum0 r \<Longrightarrow> touch_first F r = Inr r' \<Longrightarrow> sum_ok F sum0 r'"
      by (auto simp add: touch_first_def split: if_splits)
    show "\<And>d r r'. sum_ok F sum0 r \<Longrightarrow> traverse F g (depChain + 2 * doWrite) d r = Inr r' \<Longrightarrow> sum_ok F sum0 r'"
      by (rule traverse_sum_ok)
    show "sum_ok F sum0 ?r0" by (simp add: sum_ok_def)
  qed
  then show "lsum r = foldl (dadd F) sum0 (reads r)" by (simp add: sum_ok_def)
next
  show "runBench F g buf 0 depChain doWrite sum0 aCnt =
      Inr \<lparr>buffer = buf, lsum = sum0, aCount = aCnt, reads = []\<rparr>"
    by (simp add: runBench_def for_i.simps)
qed

theorem runBench_accumulates_witness:
  "\<exists>r. runBench example_ops example_globals example_buffer 1 0 1 10 100 = Inr r \<and>
       lsum r = foldl (+) 10 (reads r) \<and> reads r = [0, 0, 1, 5, 1, 2, 3] \<and> lsum r = 22"
proof -
  from runBench_accumulates [THEN conjunct1, THEN mp, OF example_run_seq_write]
  have "lsum \<lparr>buffer = example_buffer[0 := \<lparr>val = 3, nxt = Some 4\<rparr>, 4 := \<lparr>val = 5, nxt = Some 0\<rparr>],
          lsum = 22, aCount = 104, reads = [0, 0, 1, 5, 1, 2, 3]\<rparr> =
        foldl (+) 10 (reads \<lparr>buffer = example_buffer[0 := \<lparr>val = 3, nxt = Some 4\<rparr>, 4 := \<lparr>val = 5, nxt = Some 0\<rparr>],
          lsum = 22, aCount = 104, reads = [0, 0, 1, 5, 1, 2, 3 :: int]\<rparr>)"
    by (simp add: example_ops_def)
  with example_run_seq_write show ?thesis by simp
qed

text \<open>The counter of a call that returns: it has grown by the iteration count times the
  sum of \<open>distIter[d] * distBlocks[d]\<close> over the registered distances, in the arithmetic
  of \<open>u64\<close>. For the distances 4096 and 1024 of the spec's example, with blocks of 64
  bytes, that sum is 128.\<close>

lemma runBench_counts_accesses:
  "(runBench F g buf iter depChain doWrite sum0 aCnt = Inr r \<longrightarrow>
      aCount r = aCnt + iter * accesses_per_iteration g) \<and>
   initBufs spec_example = Some (Inr spec_example_sizes) \<and>
   accesses_per_iteration spec_example_sizes = 128"
proof (intro conjI impI)
  assume "runBench F g buf iter depChain doWrite sum0 aCnt = Inr r"
  then show "aCount r = aCnt + iter * accesses_per_iteration g"
    by (rule runBench_access_count)
next
  show "initBufs spec_example = Some (Inr spec_example_sizes)" by code_simp
next
  show "accesses_per_iteration spec_example_sizes = 128" by code_simp
qed

lemma runBench_counts_accesses_example:
  "\<exists>r. runBench example_ops example_globals example_buffer 2 1 0 10 100 = Inr r \<and>
       aCount r = 100 + 2 * accesses_per_iteration example_globals \<and> aCount r = 108"
proof -
  from runBench_counts_accesses [THEN conjunct1, THEN mp, OF example_run_chain_read]
  show ?thesis by (simp add: example_run_chain_read)
qed

section \<open>Properties of the dependency chain\<close>

lemma stride_inj:
  fixes B S :: nat
  assumes cop: "coprime B S"
  shows "inj_on (\<lambda>t. (t * S) mod B) {..<B}"
proof (rule inj_onI)
  fix x y assume x: "x \<in> {..<B}" and y: "y \<in> {..<B}" and eq: "(x * S) mod B = (y * S) mod B"
  have aux: "a = b" if "a \<le> b" "b < B" "(a * S) mod B = (b * S) mod B" for a b
  proof -
    from that(1) have "a * S \<le> b * S" by simp
    from mod_eq_dvd_iff_nat [OF this, of B] that(3) have "B dvd b * S - a * S" by simp
    then have "B dvd (b - a) * S" by (simp add: diff_mult_distrib)
    with cop have "B dvd b - a" by (simp add: coprime_dvd_mult_left_iff)
    moreover have "b - a < B" using that(2) by simp
    ultimately have "b - a = 0" by (meson dvd_imp_le less_le_not_le not_gr_zero)
    with that(1) show ?thesis by simp
  qed
  show "x = y"
  proof (cases "x \<le> y")
    case True
    with aux [of x y] y eq show ?thesis by simp
  next
    case False
    with aux [of y x] x eq show ?thesis by simp
  qed
qed

lemma stride_surj:
  fixes B S :: nat
  assumes cop: "coprime B S" and B: "0 < B"
  shows "(\<lambda>t. (t * S) mod B) ` {..<B} = {..<B}"
proof (rule endo_inj_surj)
  show "finite {..<B}" by simp
  show "(\<lambda>t. (t * S) mod B) ` {..<B} \<subseteq> {..<B}"
  proof
    fix x assume "x \<in> (\<lambda>t. (t * S) mod B) ` {..<B}"
    then obtain t where "x = (t * S) mod B" by blast
    then show "x \<in> {..<B}" using B by simp
  qed
  show "inj_on (\<lambda>t. (t * S) mod B) {..<B}" by (rule stride_inj [OF cop])
qed

lemma chain_pos_inj:
  assumes cop: "coprime B S"
  shows "inj_on (chain_pos B S) {..<B}"
proof (rule inj_onI)
  fix x y assume x: "x \<in> {..<B}" and y: "y \<in> {..<B}" and "chain_pos B S x = chain_pos B S y"
  then have eq: "(x * S) mod B = (y * S) mod B" by (simp add: chain_pos_def)
  show "x = y" by (rule inj_onD [OF stride_inj [OF cop] eq x y])
qed

lemma chain_pos_image:
  assumes "coprime B S" "0 < B"
  shows "chain_pos B S ` {..<B} = (\<lambda>k. 4 * k) ` {..<B}"
proof -
  have "chain_pos B S ` {..<B} = (\<lambda>k. 4 * k) ` ((\<lambda>t. (t * S) mod B) ` {..<B})"
    by (auto simp add: chain_pos_def image_image)
  with stride_surj [OF assms] show ?thesis by simp
qed

lemma chain_pos_step:
  assumes "0 < B"
  shows "(chain_pos B S j + 4 * S) mod (4 * B) = chain_pos B S (Suc j)"
proof -
  have "(chain_pos B S j + 4 * S) mod (4 * B) = (4 * ((j * S) mod B + S)) mod (4 * B)"
    by (simp add: chain_pos_def algebra_simps)
  also have "\<dots> = 4 * (((j * S) mod B + S) mod B)"
    by (simp only: mult_mod_right)
  also have "((j * S) mod B + S) mod B = (Suc j * S) mod B"
    by (metis add.commute mod_add_left_eq mult_Suc)
  finally show ?thesis by (simp add: chain_pos_def)
qed

lemma chain_pos_less: "0 < B \<Longrightarrow> chain_pos B S j < 4 * B"
  by (simp add: chain_pos_def)

lemma chain_pos_0 [simp]: "chain_pos B S 0 = 0"
  by (simp add: chain_pos_def)

lemma chain_pos_B [simp]: "chain_pos B S B = 0"
  by (simp add: chain_pos_def)

lemma unat_advance:
  fixes idx inc mx :: u64
  assumes i: "unat idx < unat mx" and s: "unat inc \<le> unat mx" and m: "unat mx < 2 ^ 63"
  shows "unat (advance inc mx idx) = (unat idx + unat inc) mod unat mx"
proof -
  have "unat idx + unat inc < 2 ^ 64" using i s m by simp
  then have n: "unat (idx + inc) = unat idx + unat inc"
    using unat_add_lem [of idx inc] by simp
  show ?thesis
  proof (cases "mx \<le> idx + inc")
    case True
    then have le: "unat mx \<le> unat idx + unat inc" using n by (simp add: word_le_nat_alt)
    have "unat (idx + inc - mx) = unat idx + unat inc - unat mx"
      using True n by (simp add: unat_sub)
    moreover have "(unat idx + unat inc) mod unat mx = unat idx + unat inc - unat mx"
      using le i s by (simp add: mod_if le_mod_geq)
    ultimately show ?thesis using True by (simp add: advance_def Let_def)
  next
    case False
    then have "unat idx + unat inc < unat mx" using n by (simp add: word_le_nat_alt)
    with False n show ?thesis by (simp add: advance_def Let_def)
  qed
qed

lemma pow58: "(2 :: nat) ^ 58 * 64 = 2 ^ 64"
  by simp

lemma blocks_bytes_bound: "n < 2 ^ 58 \<Longrightarrow> n * 64 < (2 :: nat) ^ 64"
proof -
  assume "n < 2 ^ 58"
  then have "n * 64 < 2 ^ 58 * 64" by (rule mult_strict_right_mono) simp
  then show ?thesis by (simp only: pow58)
qed

lemma unat_idx_of:
  fixes b :: u64
  assumes "b < 2 ^ 58"
  shows "unat (b * BLOCKLEN div sizeof_entry) = 4 * unat b"
proof -
  from assms have b: "unat b < 2 ^ 58" by (simp add: word_less_nat_alt)
  then have "unat b * unat (64 :: u64) < 2 ^ LENGTH(64)"
    using blocks_bytes_bound [of "unat b"] by simp
  then have "unat (b * 64) = unat b * 64" using unat_mult_lem [of b 64] by simp
  moreover have "unat (b * 64 div 16) = unat (b * 64) div unat (16 :: u64)"
    by (rule unat_div)
  ultimately have "unat (b * 64 div 16) = unat b * 64 div 16" by simp
  also have "\<dots> = 4 * unat b" by simp
  finally show ?thesis by (simp only: BLOCKLEN_def sizeof_entry_def)
qed


lemma gen_chain_linked:
  fixes blk idx nblocks idxIncr idxMax :: u64
  assumes cop: "coprime B S" and B0: "0 < B" and SB: "S \<le> B" and B58: "B < 2 ^ 58"
    and nb: "unat nblocks = B" and mx: "unat idxMax = 4 * B" and inc: "unat idxIncr = 4 * S"
    and len0: "length buf0 = 4 * B"
  shows "unat blk = j \<Longrightarrow> j \<le> B \<Longrightarrow> unat idx = chain_pos B S j \<Longrightarrow> linked B S j buf0 buf \<Longrightarrow>
     \<exists>buf'. gen_chain idxIncr idxMax nblocks blk idx buf = Inr buf' \<and> linked B S B buf0 buf'"
proof (induction "B - j" arbitrary: j blk idx buf rule: less_induct)
  case less
  show ?case
  proof (cases "j = B")
    case True
    with less.prems nb have "\<not> blk < nblocks" by (simp add: word_less_nat_alt)
    then have "gen_chain idxIncr idxMax nblocks blk idx buf = Inr buf"
      by (simp add: gen_chain.simps [of idxIncr idxMax nblocks blk idx buf])
    with less.prems True show ?thesis by simp
  next
    case False
    with less.prems have jB: "j < B" by simp
    with less.prems nb have lt: "blk < nblocks" by (simp add: word_less_nat_alt)
    have lenb: "length buf = 4 * B" using less.prems(4) len0 by (simp add: linked_def)
    have pj: "chain_pos B S j < 4 * B" using B0 by (rule chain_pos_less)
    have idx_in: "unat idx < length buf" using less.prems(3) pj lenb by simp
    have notin: "chain_pos B S j \<notin> chain_pos B S ` {..<j}"
    proof
      assume "chain_pos B S j \<in> chain_pos B S ` {..<j}"
      then obtain t where t: "t < j" "chain_pos B S j = chain_pos B S t" by auto
      with chain_pos_inj [OF cop] jB have "j = t" by (auto simp add: inj_on_def)
      with t show False by simp
    qed
    have unset: "nxt (buf ! unat idx) = None"
      using less.prems(3,4) idx_in notin by (simp add: linked_def)
    have M63: "unat idxMax < 2 ^ 63"
    proof -
      have "4 * B < 4 * 2 ^ 58" using B58 by simp
      also have "(4 :: nat) * 2 ^ 58 \<le> 2 ^ 63" by simp
      finally show ?thesis using mx by simp
    qed
    have adv: "unat (advance idxIncr idxMax idx) = chain_pos B S (Suc j)"
    proof -
      have "unat (advance idxIncr idxMax idx) = (unat idx + unat idxIncr) mod unat idxMax"
        using less.prems(3) pj mx inc SB M63 by (intro unat_advance) simp_all
      then show ?thesis using less.prems(3) mx inc chain_pos_step [OF B0, of S j] by simp
    qed
    let ?buf1 = "buf[unat idx := (buf ! unat idx)\<lparr>nxt := Some (unat (advance idxIncr idxMax idx))\<rparr>]"
    have step: "gen_chain idxIncr idxMax nblocks blk idx buf =
        gen_chain idxIncr idxMax nblocks (blk + 1) (advance idxIncr idxMax idx) ?buf1"
      using lt idx_in unset
      by (subst gen_chain.simps) (simp add: Let_def)
    have blk1: "unat (blk + 1) = Suc j"
    proof -
      have "unat blk + unat (1 :: u64) < 2 ^ LENGTH(64)"
        using less.prems(1) jB nb unsigned_less [of nblocks, where ?'a = nat] by simp
      then show ?thesis using unat_add_lem [of blk 1] less.prems(1) by simp
    qed
    have l1: "linked B S (Suc j) buf0 ?buf1"
      unfolding linked_def
    proof (intro conjI allI impI)
      show "length ?buf1 = length buf0" using less.prems(4) by (simp add: linked_def)
    next
      fix i assume i: "i < length ?buf1"
      then have ib: "i < length buf" by simp
      from less.prems(4) ib have old: "val (buf ! i) = val (buf0 ! i)"
        "nxt (buf ! i) = (if i \<in> chain_pos B S ` {..<j} then Some ((i + 4 * S) mod (4 * B)) else None)"
        by (simp_all add: linked_def)
      show "val (?buf1 ! i) = val (buf0 ! i)"
        using old(1) ib by (cases "i = unat idx") simp_all
      show "nxt (?buf1 ! i) = (if i \<in> chain_pos B S ` {..<Suc j} then Some ((i + 4 * S) mod (4 * B)) else None)"
      proof (cases "i = unat idx")
        case True
        then have "i = chain_pos B S j" using less.prems(3) by simp
        moreover have "chain_pos B S j \<in> chain_pos B S ` {..<Suc j}" by simp
        ultimately show ?thesis
          using True ib adv chain_pos_step [OF B0, of S j] by simp
      next
        case False
        then have "i \<noteq> chain_pos B S j" using less.prems(3) by simp
        then have "i \<in> chain_pos B S ` {..<Suc j} \<longleftrightarrow> i \<in> chain_pos B S ` {..<j}"
          by (auto simp add: lessThan_Suc)
        with False old(2) ib show ?thesis by simp
      qed
    qed
    have m: "B - Suc j < B - j" using jB by simp
    from less.hyps [OF m blk1 _ adv l1] jB step show ?thesis by simp
  qed
qed

lemma fresh_linked: "linked B S 0 (fresh_buffer F mx) (fresh_buffer F mx)"
  by (simp add: linked_def fresh_buffer_def)

lemma length_fresh [simp]: "length (fresh_buffer F mx) = unat mx"
  by (simp add: fresh_buffer_def)

lemma init_memory_linked:
  assumes cop: "gcd_u64 (blocks g) (blockDiff g) = 1" and nz: "blocks g \<noteq> 0"
    and le: "blockDiff g \<le> blocks g" and b58: "blocks g < 2 ^ 58"
  shows "\<exists>buf. init_memory_per_thread F g = Inr buf \<and>
           linked (unat (blocks g)) (unat (blockDiff g)) (unat (blocks g))
             (fresh_buffer F (idxMax_of g)) buf"
proof -
  let ?B = "unat (blocks g)" and ?S = "unat (blockDiff g)"
  have c: "coprime ?B ?S" using cop by (simp add: gcd_u64_eq1_iff)
  have B0: "0 < ?B" using nz by (simp add: unat_gt_0)
  have SB: "?S \<le> ?B" using le by (simp add: word_le_nat_alt)
  have B58: "?B < 2 ^ 58" using b58 by (simp add: word_less_nat_alt)
  have d58: "blockDiff g < 2 ^ 58" using le b58 by simp
  have mx: "unat (idxMax_of g) = 4 * ?B" unfolding idxMax_of_def by (rule unat_idx_of [OF b58])
  have inc: "unat (idxIncr_of g) = 4 * ?S" unfolding idxIncr_of_def by (rule unat_idx_of [OF d58])
  have len0: "length (fresh_buffer F (idxMax_of g)) = 4 * ?B" using mx by simp
  from gen_chain_linked [OF c B0 SB B58 refl mx inc len0, of 0 0 0 "fresh_buffer F (idxMax_of g)"]
    fresh_linked [of ?B ?S F "idxMax_of g"]
  show ?thesis by (simp add: init_memory_per_thread_def)
qed

lemma linked_full:
  assumes c: "coprime B S" and B0: "0 < B" and l: "linked B S B buf0 buf"
    and len0: "length buf0 = 4 * B" and i: "i < 4 * B"
  shows "nxt (buf ! i) = (if 4 dvd i then Some ((i + 4 * S) mod (4 * B)) else None)"
proof -
  have len: "length buf = 4 * B" using l len0 by (simp add: linked_def)
  have "i \<in> chain_pos B S ` {..<B} \<longleftrightarrow> 4 dvd i"
  proof
    assume "i \<in> chain_pos B S ` {..<B}"
    then show "4 dvd i" by (auto simp add: chain_pos_def)
  next
    assume "4 dvd i"
    then obtain k where k: "i = 4 * k" ..
    with i have "k < B" by simp
    with k have "i \<in> (\<lambda>k. 4 * k) ` {..<B}" by blast
    with chain_pos_image [OF c B0] show "i \<in> chain_pos B S ` {..<B}" by simp
  qed
  with l i len show ?thesis by (simp add: linked_def)
qed

lemma chain_walk_pos:
  assumes c: "coprime B S" and B0: "0 < B" and l: "linked B S B buf0 buf"
    and len0: "length buf0 = 4 * B"
  shows "chain_walk buf n = Some (chain_pos B S n)"
proof (induction n)
  case 0
  show ?case by (simp add: chain_walk_def)
next
  case (Suc n)
  have len: "length buf = 4 * B" using l len0 by (simp add: linked_def)
  have p: "chain_pos B S n < 4 * B" using B0 by (rule chain_pos_less)
  have d: "4 dvd chain_pos B S n" by (simp add: chain_pos_def)
  have "chain_walk buf (Suc n) = chain_next buf (chain_walk buf n)"
    by (simp add: chain_walk_def)
  also have "\<dots> = nxt (buf ! chain_pos B S n)"
    using Suc p len by (simp add: chain_next_def)
  also have "\<dots> = Some ((chain_pos B S n + 4 * S) mod (4 * B))"
    using linked_full [OF c B0 l len0 p] d by simp
  also have "\<dots> = Some (chain_pos B S (Suc n))"
    using chain_pos_step [OF B0, of S n] by simp
  finally show ?case .
qed

lemma seq_walk_pos:
  assumes B0: "0 < unat (blocks g)" and SB: "blockDiff g \<le> blocks g" and b58: "blocks g < 2 ^ 58"
  shows "unat (seq_walk g n) = chain_pos (unat (blocks g)) (unat (blockDiff g)) n"
proof (induction n)
  case 0
  show ?case by (simp add: seq_walk_def)
next
  case (Suc n)
  let ?B = "unat (blocks g)" and ?S = "unat (blockDiff g)"
  have d58: "blockDiff g < 2 ^ 58" using SB b58 by simp
  have mx: "unat (idxMax_of g) = 4 * ?B" unfolding idxMax_of_def by (rule unat_idx_of [OF b58])
  have inc: "unat (idxIncr_of g) = 4 * ?S" unfolding idxIncr_of_def by (rule unat_idx_of [OF d58])
  have B58: "?B < 2 ^ 58" using b58 by (simp add: word_less_nat_alt)
  have M63: "unat (idxMax_of g) < 2 ^ 63"
  proof -
    have "4 * ?B < 4 * 2 ^ 58" using B58 by simp
    also have "(4 :: nat) * 2 ^ 58 \<le> 2 ^ 63" by simp
    finally show ?thesis using mx by simp
  qed
  have p: "chain_pos ?B ?S n < 4 * ?B" using B0 by (rule chain_pos_less)
  have "seq_walk g (Suc n) = advance (idxIncr_of g) (idxMax_of g) (seq_walk g n)"
    by (simp add: seq_walk_def)
  moreover have "unat (advance (idxIncr_of g) (idxMax_of g) (seq_walk g n)) =
      (unat (seq_walk g n) + unat (idxIncr_of g)) mod unat (idxMax_of g)"
  proof (rule unat_advance)
    show "unat (seq_walk g n) < unat (idxMax_of g)" using Suc p mx by simp
    show "unat (idxIncr_of g) \<le> unat (idxMax_of g)"
      using mx inc SB by (simp add: word_le_nat_alt)
    show "unat (idxMax_of g) < 2 ^ 63" by (rule M63)
  qed
  ultimately show ?case using Suc mx inc chain_pos_step [OF B0, of ?S n] by simp
qed

lemma block_starts_eq: "block_starts g = (\<lambda>k. 4 * k) ` {..<unat (blocks g)}"
proof -
  have "unat (BLOCKLEN div sizeof_entry) = 4"
    by (simp add: BLOCKLEN_def sizeof_entry_def)
  then show ?thesis by (simp add: block_starts_def mult.commute)
qed

text \<open>The pairs that \<open>initBufs\<close> hands to the chain builder.\<close>

lemma raw_blocks_bound: "raw_blocks g < 2 ^ 58"
proof -
  let ?y = "distSize g ! 0 + BLOCKLEN - 1"
  have "unat (?y div 64) = unat ?y div unat (64 :: u64)" by (rule unat_div)
  moreover have "unat ?y < 2 ^ 64"
    using unsigned_less [of ?y, where ?'a = nat] by simp
  then have "unat ?y < 2 ^ 58 * 64" by (simp only: pow58)
  then have "unat ?y div 64 < 2 ^ 58" by (simp add: less_mult_imp_div_less)
  ultimately have "unat (?y div 64) < 2 ^ 58" by simp
  then show ?thesis by (simp add: raw_blocks_def BLOCKLEN_def word_less_nat_alt)
qed


lemma stride_policy_le:
  assumes "b0 < 2 ^ 58"
  shows "stride_policy pr b0 \<le> b0 \<or> (stride_policy pr b0 = 1 \<and> b0 = 0)"
proof (cases "pr = 0")
  case True
  then have "stride_policy pr b0 = 1" by (simp add: stride_policy_def)
  then show ?thesis by (cases "b0 = 0") (simp_all add: word_le_nat_alt unat_gt_0 Suc_leI)
next
  case False
  from assms have b: "unat b0 < 2 ^ 58" by (simp add: word_less_nat_alt)
  then have "unat b0 * 64 < 2 ^ 64" by (rule blocks_bytes_bound)
  then have "unat b0 * unat (7 :: u64) < 2 ^ LENGTH(64)" by simp
  then have "unat (b0 * 7) = unat b0 * 7" using unat_mult_lem [of b0 7] by simp
  moreover have "unat (b0 * 7 div 17) = unat (b0 * 7) div unat (17 :: u64)" by (rule unat_div)
  ultimately have "unat (b0 * 7 div 17) = unat b0 * 7 div 17" by simp
  then have "unat (b0 * 7 div 17) \<le> unat b0" by simp
  with False show ?thesis by (simp add: stride_policy_def word_le_nat_alt)
qed

lemma initBufs_sizes:
  assumes "initBufs g0 = Some (Inr g)"
  shows "\<exists>b0 pr. b0 < 2 ^ 58 \<and> blockDiff g = stride_policy pr b0 \<and>
           adjustSize b0 (blockDiff g) = Some (blocks g)"
proof -
  from assms obtain g1 where g1: "initBufs_dists 0 g0 = Inr g1"
    by (cases "initBufs_dists 0 g0") (simp_all add: initBufs_def)
  let ?b0 = "raw_blocks g1" and ?d = "stride_policy (pseudoRandom g1) (raw_blocks g1)"
  from assms g1 obtain b where b: "adjustSize ?b0 ?d = Some b"
    and g: "g = g1\<lparr>blocks := b, blockDiff := ?d\<rparr>"
    by (cases "adjustSize ?b0 ?d") (simp_all add: initBufs_def split: if_splits)
  from b g raw_blocks_bound [of g1] show ?thesis by auto
qed

lemma normalized_pair:
  assumes init: "initBufs g0 = Some (Inr g)" and cop: "gcd_u64 (blocks g) (blockDiff g) = 1"
  shows "blockDiff g \<le> blocks g \<or> blocks g = 0"
proof -
  from initBufs_sizes [OF init] obtain b0 pr where b0: "b0 < 2 ^ 58"
    and d: "blockDiff g = stride_policy pr b0"
    and a: "adjustSize b0 (blockDiff g) = Some (blocks g)" by blast
  show ?thesis
  proof (cases "blockDiff g = 0")
    case True
    then show ?thesis by simp
  next
    case False
    from stride_policy_le [OF b0, of pr] d
    consider "blockDiff g \<le> b0" | "blockDiff g = 1" "b0 = 0" by auto
    then show ?thesis
    proof cases
      case 1
      then have "unat (blockDiff g) \<le> unat b0" by (simp add: word_le_nat_alt)
      moreover from b0 have "unat b0 < 2 ^ 58" by (simp add: word_less_nat_alt)
      then have "unat b0 * 64 < 2 ^ 64" by (rule blocks_bytes_bound)
      ultimately have "unat b0 + unat (blockDiff g) \<le> 2 ^ 64" by simp
      from adjustSize_bound [OF False this] a have "b0 \<le> blocks g" by auto
      with 1 have "blockDiff g \<le> blocks g" by (rule order_trans)
      then show ?thesis ..
    next
      case 2
      then have "adjustSize b0 (blockDiff g) = Some 0"
        by (simp add: adjustSize.simps [of 0 1] gcd_u64_gt1_iff)
      with a show ?thesis by simp
    qed
  qed
qed

lemma built_chain:
  assumes cop: "gcd_u64 (blocks g) (blockDiff g) = 1" and nz: "blocks g \<noteq> 0"
    and le: "blockDiff g \<le> blocks g" and b58: "blocks g < 2 ^ 58"
  shows "\<exists>buf. init_memory_per_thread F g = Inr buf \<and> length buf = 4 * unat (blocks g) \<and>
           (\<forall>n. chain_walk buf n = Some (chain_pos (unat (blocks g)) (unat (blockDiff g)) n)) \<and>
           (\<forall>i < length buf. nxt (buf ! i) \<noteq> None \<longleftrightarrow> 4 dvd i)"
proof -
  let ?B = "unat (blocks g)" and ?S = "unat (blockDiff g)"
  have c: "coprime ?B ?S" using cop by (simp add: gcd_u64_eq1_iff)
  have B0: "0 < ?B" using nz by (simp add: unat_gt_0)
  have mx: "unat (idxMax_of g) = 4 * ?B" unfolding idxMax_of_def by (rule unat_idx_of [OF b58])
  then have len0: "length (fresh_buffer F (idxMax_of g)) = 4 * ?B" by simp
  from init_memory_linked [OF cop nz le b58, of F] obtain buf
    where run: "init_memory_per_thread F g = Inr buf"
      and l: "linked ?B ?S ?B (fresh_buffer F (idxMax_of g)) buf" by blast
  have len: "length buf = 4 * ?B" using l len0 by (simp add: linked_def)
  have w: "\<forall>n. chain_walk buf n = Some (chain_pos ?B ?S n)"
    using chain_walk_pos [OF c B0 l len0] by blast
  have n: "\<forall>i < length buf. nxt (buf ! i) \<noteq> None \<longleftrightarrow> 4 dvd i"
    using linked_full [OF c B0 l len0] len by simp
  from run len w n show ?thesis by blast
qed

lemma in_block_starts: "i \<in> block_starts g \<longleftrightarrow> 4 dvd i \<and> i < 4 * unat (blocks g)"
proof
  assume "i \<in> block_starts g"
  then show "4 dvd i \<and> i < 4 * unat (blocks g)" by (auto simp add: block_starts_eq)
next
  assume a: "4 dvd i \<and> i < 4 * unat (blocks g)"
  then obtain k where k: "i = 4 * k" by blast
  with a have "k < unat (blocks g)" by simp
  with k show "i \<in> block_starts g" unfolding block_starts_eq by blast
qed

lemma chain_example_initBufs: "initBufs chain_example = Some (Inr chain_example_sizes)"
  by code_simp

lemma chain_example_coprime:
  "gcd_u64 (blocks chain_example_sizes) (blockDiff chain_example_sizes) = 1"
  by code_simp

lemma chain_example_size: "blocks chain_example_sizes < 2 ^ 58"
  by (simp add: chain_example_sizes_def)

lemma chain_example_nonempty: "blocks chain_example_sizes \<noteq> 0"
  by (simp add: chain_example_sizes_def)

text \<open>The builder wraps the index by one subtraction of \<open>idxMax\<close>, which is enough
  only for a stride of at most the block count. With 2 blocks and the stride 3 (coprime) the
  builder still returns, but the link written at entry 4 points to index 8, one past the end
  of the buffer of 8 entries, and the walk from entry 0 is there after 2 steps, not at 0.\<close>

lemma chain_stride_above_blocks:
  "gcd_u64 (blocks wide_stride_example) (blockDiff wide_stride_example) = 1 \<and>
   (\<exists>buf. init_memory_per_thread example_ops wide_stride_example = Inr buf \<and>
      length buf = 8 \<and> chain_walk buf (unat (blocks wide_stride_example)) = Some 8)"
proof -
  have "init_memory_per_thread example_ops wide_stride_example =
      Inr [\<lparr>val = 0, nxt = Some 4\<rparr>, \<lparr>val = 1, nxt = None\<rparr>, \<lparr>val = 2, nxt = None\<rparr>,
           \<lparr>val = 3, nxt = None\<rparr>, \<lparr>val = 4, nxt = Some 8\<rparr>, \<lparr>val = 5, nxt = None\<rparr>,
           \<lparr>val = 6, nxt = None\<rparr>, \<lparr>val = 7, nxt = None\<rparr>]"
    by code_simp
  moreover have "chain_walk
          [\<lparr>val = 0 :: int, nxt = Some 4\<rparr>, \<lparr>val = 1, nxt = None\<rparr>, \<lparr>val = 2, nxt = None\<rparr>,
           \<lparr>val = 3, nxt = None\<rparr>, \<lparr>val = 4, nxt = Some 8\<rparr>, \<lparr>val = 5, nxt = None\<rparr>,
           \<lparr>val = 6, nxt = None\<rparr>, \<lparr>val = 7, nxt = None\<rparr>]
          (unat (blocks wide_stride_example)) = Some 8"
    by code_simp
  moreover have "gcd_u64 (blocks wide_stride_example) (blockDiff wide_stride_example) = 1"
    by code_simp
  ultimately show ?thesis by simp
qed

text \<open>Claim C1: for every coprime pair of block count and stride with which \<open>initBufs\<close>
  starts the chain builder (and a buffer size \<open>blocks * BLOCKLEN\<close> that fits 64 bits), the
  builder finishes without a failed assertion, so no entry is linked twice; exactly the
  entries at the block starts carry a link; and following the links from entry 0 comes back
  to entry 0 after \<open>blocks\<close> steps, not earlier, and visits every block start exactly
  once on the way.\<close>

theorem chain_is_single_cycle:
  assumes init: "initBufs g0 = Some (Inr g)"
    and cop: "gcd_u64 (blocks g) (blockDiff g) = 1"
    and b58: "blocks g < 2 ^ 58"
  shows "\<exists>buf. init_memory_per_thread F g = Inr buf \<and>
           length buf = unat (idxMax_of g) \<and>
           (\<forall>i < length buf. nxt (buf ! i) \<noteq> None \<longleftrightarrow> i \<in> block_starts g) \<and>
           chain_walk buf (unat (blocks g)) = Some 0 \<and>
           (\<forall>n. 0 < n \<and> n < unat (blocks g) \<longrightarrow> chain_walk buf n \<noteq> Some 0) \<and>
           inj_on (chain_walk buf) {..<unat (blocks g)} \<and>
           chain_walk buf ` {..<unat (blocks g)} = Some ` block_starts g"
proof (cases "blocks g = 0")
  case True
  then have mx: "idxMax_of g = 0" by (simp add: idxMax_of_def)
  then have "init_memory_per_thread F g = Inr []"
    using True by (simp add: init_memory_per_thread_def fresh_buffer_def gen_chain.simps)
  moreover have "chain_walk ([] :: 'a entry list) 0 = Some 0" by (simp add: chain_walk_def)
  moreover have "block_starts g = {}" using True by (simp add: block_starts_def)
  ultimately show ?thesis using True mx by simp
next
  case False
  let ?B = "unat (blocks g)" and ?S = "unat (blockDiff g)"
  from normalized_pair [OF init cop] False have le: "blockDiff g \<le> blocks g" by simp
  have c: "coprime ?B ?S" using cop by (simp add: gcd_u64_eq1_iff)
  have mx: "unat (idxMax_of g) = 4 * ?B" unfolding idxMax_of_def by (rule unat_idx_of [OF b58])
  from built_chain [OF cop False le b58, of F] obtain buf
    where run: "init_memory_per_thread F g = Inr buf"
      and len: "length buf = 4 * ?B"
      and w: "\<And>n. chain_walk buf n = Some (chain_pos ?B ?S n)"
      and n: "\<forall>i < length buf. nxt (buf ! i) \<noteq> None \<longleftrightarrow> 4 dvd i" by blast
  have 1: "\<forall>i < length buf. nxt (buf ! i) \<noteq> None \<longleftrightarrow> i \<in> block_starts g"
    using n len by (simp add: in_block_starts)
  have 2: "chain_walk buf ?B = Some 0" using w [of ?B] by simp
  have inj: "inj_on (chain_pos ?B ?S) {..<?B}" by (rule chain_pos_inj [OF c])
  have 3: "\<forall>n. 0 < n \<and> n < ?B \<longrightarrow> chain_walk buf n \<noteq> Some 0"
  proof (intro allI impI)
    fix n assume n: "0 < n \<and> n < ?B"
    show "chain_walk buf n \<noteq> Some 0"
    proof
      assume "chain_walk buf n = Some 0"
      with w [of n] have "chain_pos ?B ?S n = chain_pos ?B ?S 0" by simp
      from inj_onD [OF inj this] n show False by simp
    qed
  qed
  have 4: "inj_on (chain_walk buf) {..<?B}"
  proof (rule inj_onI)
    fix x y assume x: "x \<in> {..<?B}" and y: "y \<in> {..<?B}" and "chain_walk buf x = chain_walk buf y"
    with w have "chain_pos ?B ?S x = chain_pos ?B ?S y" by simp
    from inj_onD [OF inj this x y] show "x = y" .
  qed
  have B0: "0 < ?B" using False by (simp add: unat_gt_0)
  have "chain_walk buf ` {..<?B} = Some ` (chain_pos ?B ?S ` {..<?B})"
    using w by (simp add: image_image)
  also have "chain_pos ?B ?S ` {..<?B} = block_starts g"
    using chain_pos_image [OF c B0] by (simp add: block_starts_eq)
  finally have 5: "chain_walk buf ` {..<?B} = Some ` block_starts g" .
  from run len mx 1 2 3 4 5 show ?thesis by simp
qed

theorem chain_is_single_cycle_witness:
  "initBufs chain_example = Some (Inr chain_example_sizes) \<and>
   gcd_u64 (blocks chain_example_sizes) (blockDiff chain_example_sizes) = 1 \<and>
   blocks chain_example_sizes < 2 ^ 58 \<and>
   (\<exists>buf. init_memory_per_thread example_ops chain_example_sizes = Inr buf \<and>
      length buf = unat (idxMax_of chain_example_sizes) \<and>
      (\<forall>i < length buf. nxt (buf ! i) \<noteq> None \<longleftrightarrow> i \<in> block_starts chain_example_sizes) \<and>
      chain_walk buf (unat (blocks chain_example_sizes)) = Some 0 \<and>
      (\<forall>n. 0 < n \<and> n < unat (blocks chain_example_sizes) \<longrightarrow> chain_walk buf n \<noteq> Some 0) \<and>
      inj_on (chain_walk buf) {..<unat (blocks chain_example_sizes)} \<and>
      chain_walk buf ` {..<unat (blocks chain_example_sizes)} =
        Some ` block_starts chain_example_sizes)"
  using chain_is_single_cycle [OF chain_example_initBufs chain_example_coprime chain_example_size,
      of example_ops]
    chain_example_initBufs chain_example_coprime chain_example_size
  by blast

text \<open>The run after the values \<open>xs\<close> have been added to \<open>lsum\<close>, one after the other.\<close>

lemma foldl_add_sum:
  "buffer (foldl (\<lambda>r x. add_sum F x r) r xs) = buffer r \<and>
   aCount (foldl (\<lambda>r x. add_sum F x r) r xs) = aCount r \<and>
   reads (foldl (\<lambda>r x. add_sum F x r) r xs) = reads r @ xs \<and>
   lsum (foldl (\<lambda>r x. add_sum F x r) r xs) = foldl (dadd F) (lsum r) xs"
  by (induction xs arbitrary: r) (simp_all add: add_sum_def)

lemma word_succ_unat: "j < mx \<Longrightarrow> unat (j + 1) = unat j + 1" for j mx :: u64
proof -
  assume "j < mx"
  then have lt: "unat j < unat mx" by (simp add: word_less_nat_alt)
  then have "unat j + unat (1 :: u64) < 2 ^ LENGTH(64)"
    using unsigned_less [of mx, where ?'a = nat] by simp
  then show ?thesis using unat_add_lem [of j 1] by simp
qed

lemma for_j_seq_reads:
  "(\<And>n. n < k \<Longrightarrow> unat ((advance inc m ^^ n) idx) < length (buffer r)) \<Longrightarrow>
   unat mx - unat j = k \<Longrightarrow> j \<le> mx \<Longrightarrow>
   for_j (step_seq_read F inc m) mx j (idx, r) =
     Inr ((advance inc m ^^ k) idx,
          foldl (\<lambda>r x. add_sum F x r) r
            (map (\<lambda>n. val (buffer r ! unat ((advance inc m ^^ n) idx))) [0..<k]))"
proof (induction k arbitrary: j idx r)
  case 0
  then have "unat mx \<le> unat j" by simp
  then have "\<not> j < mx" by (simp add: word_less_nat_alt)
  then show ?case by (simp add: for_j.simps [of _ mx j])
next
  case (Suc k)
  from Suc.prems(2) have lt: "unat j < unat mx" by arith
  then have True: "j < mx" by (simp add: word_less_nat_alt)
  have u: "unat (j + 1) = unat j + 1" by (rule word_succ_unat [OF True])
  have le: "j + 1 \<le> mx" using True by (simp add: inc_le)
  have k: "unat mx - unat (j + 1) = k" using Suc.prems(2) u by simp
  have i0: "unat idx < length (buffer r)" using Suc.prems(1) [of 0] by simp
  let ?r1 = "add_sum F (val (buffer r ! unat idx)) r"
  have b: "step_seq_read F inc m (idx, r) = Inr (advance inc m idx, ?r1)"
    using i0 by (simp add: step_seq_read_def)
  have br: "buffer ?r1 = buffer r" by (simp add: add_sum_def)
  have rng: "unat ((advance inc m ^^ n) (advance inc m idx)) < length (buffer ?r1)" if "n < k" for n
    using Suc.prems(1) [of "Suc n"] that br by (simp add: funpow_swap1)
  have "for_j (step_seq_read F inc m) mx j (idx, r) =
      for_j (step_seq_read F inc m) mx (j + 1) (advance inc m idx, ?r1)"
    using True b by (simp add: for_j.simps [of _ mx j])
  also note Suc.IH [OF rng k le]
  finally show ?case
    by (simp only: br map_upt_Suc funpow_swap1 funpow.simps o_apply id_apply list.map foldl_Cons)
qed

lemma for_j_chain_reads:
  "(\<And>n. n \<le> k \<Longrightarrow> (chain_next (buffer r) ^^ n) p = Some (q n)) \<Longrightarrow>
   (\<And>n. n < k \<Longrightarrow> q n < length (buffer r)) \<Longrightarrow>
   unat mx - unat j = k \<Longrightarrow> j \<le> mx \<Longrightarrow>
   for_j (step_chain_read F) mx j (p, r) =
     Inr (Some (q k),
          foldl (\<lambda>r x. add_sum F x r) r (map (\<lambda>n. val (buffer r ! q n)) [0..<k]))"
proof (induction k arbitrary: j p r q)
  case 0
  then have "unat mx \<le> unat j" by simp
  then have "\<not> j < mx" by (simp add: word_less_nat_alt)
  moreover from "0.prems"(1) [of 0] have "p = Some (q 0)" by simp
  ultimately show ?case by (simp add: for_j.simps [of _ mx j])
next
  case (Suc k)
  from Suc.prems(3) have lt: "unat j < unat mx" by arith
  then have True: "j < mx" by (simp add: word_less_nat_alt)
  have u: "unat (j + 1) = unat j + 1" by (rule word_succ_unat [OF True])
  have le: "j + 1 \<le> mx" using True by (simp add: inc_le)
  have k: "unat mx - unat (j + 1) = k" using Suc.prems(3) u by simp
  from Suc.prems(1) [of 0] have p: "p = Some (q 0)" by simp
  have i0: "q 0 < length (buffer r)" using Suc.prems(2) [of 0] by simp
  from Suc.prems(1) [of 1] p i0 have n1: "nxt (buffer r ! q 0) = Some (q 1)"
    by (simp add: chain_next_def)
  let ?r1 = "add_sum F (val (buffer r ! q 0)) r"
  have b: "step_chain_read F (p, r) = Inr (Some (q 1), ?r1)"
    using i0 p n1 by (simp add: step_chain_read_def)
  have br: "buffer ?r1 = buffer r" by (simp add: add_sum_def)
  have w: "(chain_next (buffer ?r1) ^^ n) (Some (q 1)) = Some (q (Suc n))" if "n \<le> k" for n
  proof -
    have "chain_next (buffer r) p = Some (q 1)" using Suc.prems(1) [of 1] by simp
    then have "(chain_next (buffer r) ^^ n) (Some (q 1)) = (chain_next (buffer r) ^^ Suc n) p"
      by (simp add: funpow_swap1)
    with Suc.prems(1) [of "Suc n"] that br show ?thesis by simp
  qed
  have rng: "q (Suc n) < length (buffer ?r1)" if "n < k" for n
    using Suc.prems(2) [of "Suc n"] that br by simp
  have "for_j (step_chain_read F) mx j (p, r) =
      for_j (step_chain_read F) mx (j + 1) (Some (q 1), ?r1)"
    using True b by (simp add: for_j.simps [of _ mx j])
  also note Suc.IH [of ?r1 "Some (q 1)" "\<lambda>n. q (Suc n)", OF w rng k le]
  finally show ?case
    by (simp only: br map_upt_Suc list.map foldl_Cons)
qed


lemma built_payload:
  assumes cop: "gcd_u64 (blocks g) (blockDiff g) = 1" and nz: "blocks g \<noteq> 0"
    and le: "blockDiff g \<le> blocks g" and b58: "blocks g < 2 ^ 58"
    and run: "init_memory_per_thread F g = Inr buf" and i: "i < length buf"
  shows "val (buf ! i) = of_u64 F (word_of_nat i)"
proof -
  from init_memory_linked [OF cop nz le b58, of F] run
  have l: "linked (unat (blocks g)) (unat (blockDiff g)) (unat (blocks g))
      (fresh_buffer F (idxMax_of g)) buf" by simp
  then have len: "length buf = unat (idxMax_of g)" by (simp add: linked_def)
  from l i have "val (buf ! i) = val (fresh_buffer F (idxMax_of g) ! i)" by (simp add: linked_def)
  also have "\<dots> = of_u64 F (word_of_nat i)" using i len by (simp add: fresh_buffer_def)
  finally show ?thesis .
qed

text \<open>On a buffer whose links follow the strided index, the loops of the two read-only
  modes read the same entries in the same order.\<close>

lemma read_loops_agree:
  assumes w: "\<And>n. chain_walk buf n = Some (unat (seq_walk g n))"
    and rng: "\<And>n. unat (seq_walk g n) < length buf"
    and b: "buffer r = buf"
  shows "for_j (step_seq_read F (idxIncr_of g) (idxMax_of g)) mx 0 (0, r) =
           Inr (seq_walk g (unat mx),
                foldl (\<lambda>r x. add_sum F x r) r
                  (map (\<lambda>n. val (buf ! unat (seq_walk g n))) [0..<unat mx]))"
    and "for_j (step_chain_read F) mx 0 (Some 0, r) =
           Inr (Some (unat (seq_walk g (unat mx))),
                foldl (\<lambda>r x. add_sum F x r) r
                  (map (\<lambda>n. val (buf ! unat (seq_walk g n))) [0..<unat mx]))"
proof -
  have r1: "unat ((advance (idxIncr_of g) (idxMax_of g) ^^ n) 0) < length (buffer r)" for n
    using rng [of n] b by (simp add: seq_walk_def)
  from for_j_seq_reads [of "unat mx" "idxIncr_of g" "idxMax_of g" 0 r mx 0 F, OF r1]
  show "for_j (step_seq_read F (idxIncr_of g) (idxMax_of g)) mx 0 (0, r) =
           Inr (seq_walk g (unat mx),
                foldl (\<lambda>r x. add_sum F x r) r
                  (map (\<lambda>n. val (buf ! unat (seq_walk g n))) [0..<unat mx]))"
    using b by (simp add: seq_walk_def)
  have w1: "(chain_next (buffer r) ^^ n) (Some 0) = Some (unat (seq_walk g n))" for n
    using w [of n] b by (simp add: chain_walk_def)
  have r2: "unat (seq_walk g n) < length (buffer r)" for n using rng [of n] b by simp
  from for_j_chain_reads [of "unat mx" r "Some 0" "\<lambda>n. unat (seq_walk g n)" mx 0 F, OF w1 r2]
  show "for_j (step_chain_read F) mx 0 (Some 0, r) =
           Inr (Some (unat (seq_walk g (unat mx))),
                foldl (\<lambda>r x. add_sum F x r) r
                  (map (\<lambda>n. val (buf ! unat (seq_walk g n))) [0..<unat mx]))"
    using b by simp
qed

lemma traverse_modes_agree:
  assumes w: "\<And>n. chain_walk buf n = Some (unat (seq_walk g n))"
    and rng: "\<And>n. unat (seq_walk g n) < length buf"
    and b: "buffer r = buf"
  shows "\<exists>r'. traverse F g 0 d r = Inr r' \<and> traverse F g 1 d r = Inr r' \<and> buffer r' = buf"
proof -
  let ?r1 = "r\<lparr>aCount := aCount r + distBlocks g ! nat d\<rparr>"
  let ?xs = "map (\<lambda>n. val (buf ! unat (seq_walk g n))) [0..<unat (distBlocks g ! nat d)]"
  have b1: "buffer ?r1 = buf" using b by simp
  have "buffer (foldl (\<lambda>r x. add_sum F x r) ?r1 ?xs) = buf"
    using foldl_add_sum [of F ?r1 ?xs] b by simp
  with read_loops_agree [of buf g ?r1 F "distBlocks g ! nat d", OF w rng b1]
  show ?thesis by (simp add: traverse_def Let_def)
qed

lemma for_k_cong:
  assumes eq: "\<And>s. W s \<Longrightarrow> body1 s = body2 s"
    and keep: "\<And>s s'. W s \<Longrightarrow> body1 s = Inr s' \<Longrightarrow> W s'"
  shows "W s \<Longrightarrow> for_k body1 n k s = for_k body2 n k s"
proof (induction "nat (2147483647 - k)" arbitrary: k s rule: less_induct)
  case less
  show ?case
  proof (cases "(word_of_int k :: u64) < n")
    case False
    then show ?thesis by (simp add: for_k.simps [of _ n k s])
  next
    case True
    note e = eq [OF less.prems]
    show ?thesis
    proof (cases "body1 s")
      case (Inl x)
      with e have "body2 s = Inl x" by simp
      with Inl True show ?thesis by (simp add: for_k.simps [of _ n k s])
    next
      case (Inr s1)
      with e have i2: "body2 s = Inr s1" by simp
      show ?thesis
      proof (cases "2147483647 \<le> k")
        case over: True
        with Inr i2 True show ?thesis by (simp add: for_k.simps [of _ n k s])
      next
        case False
        then have m: "nat (2147483647 - (k + 1)) < nat (2147483647 - k)" by simp
        from less.hyps [OF m keep [OF less.prems Inr]]
        have "for_k body1 n (k + 1) s1 = for_k body2 n (k + 1) s1" .
        with Inr i2 True False show ?thesis by (simp add: for_k.simps [of _ n k s])
      qed
    qed
  qed
qed

lemma for_d_modes_agree:
  assumes tr: "\<And>d r. buffer r = buf \<Longrightarrow> traverse F g 0 d r = traverse F g 1 d r"
  shows "buffer r = buf \<Longrightarrow> for_d F g 0 d r = for_d F g 1 d r"
proof (induction "nat (distsUsed g - d)" arbitrary: d r rule: less_induct)
  case less
  show ?case
  proof (cases "d < distsUsed g \<and> (0 \<le> d \<and> nat d < length (distIter g) \<and> nat d < length (distBlocks g))")
    case False
    then show ?thesis by (auto simp add: for_d.simps [of F g _ d r])
  next
    case True
    show ?thesis
    proof (cases "touch_first F r")
      case (Inl e)
      with True show ?thesis by (simp add: for_d.simps [of F g _ d r])
    next
      case (Inr r1)
      then have b1: "buffer r1 = buf" using less.prems by (auto dest: touch_first_keeps)
      have keep: "buffer s' = buf" if "buffer s = buf" "traverse F g 0 d s = Inr s'" for s s'
        using traverse_readonly [OF that(2)] that(1) by simp
      have k: "for_k (traverse F g 0 d) (distIter g ! nat d) 0 r1 =
          for_k (traverse F g 1 d) (distIter g ! nat d) 0 r1"
        by (rule for_k_cong [where W = "\<lambda>r. buffer r = buf", OF tr keep b1])
      show ?thesis
      proof (cases "for_k (traverse F g 0 d) (distIter g ! nat d) 0 r1")
        case (Inl e)
        with k have "for_k (traverse F g 1 d) (distIter g ! nat d) 0 r1 = Inl e" by simp
        with True Inr Inl show ?thesis by (simp add: for_d.simps [of F g _ d r])
      next
        case r2: (Inr r2)
        with k have k2: "for_k (traverse F g 1 d) (distIter g ! nat d) 0 r1 = Inr r2" by simp
        have b2: "buffer r2 = buf"
          by (rule for_k_inv [of "\<lambda>r. buffer r = buf" "traverse F g 0 d", OF keep b1 r2])
        have m: "nat (distsUsed g - (d + 1)) < nat (distsUsed g - d)" using True by simp
        from less.hyps [OF m b2] True Inr k2 r2 show ?thesis
          by (simp add: for_d.simps [of F g _ d r])
      qed
    qed
  qed
qed

lemma for_i_modes_agree:
  assumes tr: "\<And>d r. buffer r = buf \<Longrightarrow> traverse F g 0 d r = traverse F g 1 d r"
  shows "buffer r = buf \<Longrightarrow> for_i F g 0 iter i r = for_i F g 1 iter i r"
proof (induction "unat iter - unat i" arbitrary: i r rule: less_induct)
  case less
  show ?case
  proof (cases "i < iter")
    case False
    then show ?thesis by (simp add: for_i.simps [of F g _ iter i r])
  next
    case True
    show ?thesis
    proof (cases "touch_first F r")
      case (Inl e)
      with True show ?thesis by (simp add: for_i.simps [of F g _ iter i r])
    next
      case (Inr r1)
      then have b1: "buffer r1 = buf" using less.prems by (auto dest: touch_first_keeps)
      have d: "for_d F g 0 0 r1 = for_d F g 1 0 r1" by (rule for_d_modes_agree [OF tr b1])
      show ?thesis
      proof (cases "for_d F g 0 0 r1")
        case (Inl e)
        with d have "for_d F g 1 0 r1 = Inl e" by simp
        with True Inr Inl show ?thesis by (simp add: for_i.simps [of F g _ iter i r])
      next
        case r2: (Inr r2)
        with d have d2: "for_d F g 1 0 r1 = Inr r2" by simp
        have keep: "buffer s' = buf" if "buffer s = buf" "traverse F g 0 d s = Inr s'" for s s' d
          using traverse_readonly [OF that(2)] that(1) by simp
        have t: "buffer s' = buf" if "buffer s = buf" "touch_first F s = Inr s'" for s s'
          using that by (auto dest: touch_first_keeps)
        have b2: "buffer r2 = buf"
          by (rule for_d_inv [of "\<lambda>r. buffer r = buf" F g 0, OF t keep b1 r2])
        from less.hyps [OF word_succ_measure [OF True] b2] True Inr d2 r2 show ?thesis
          by (simp add: for_i.simps [of F g _ iter i r])
      qed
    qed
  qed
qed

text \<open>The example of 17 blocks with the stride 7: its buffer, and a sequential read-only
  call of one iteration on it.\<close>

lemma chain_example_built:
  "init_memory_per_thread example_ops chain_example_sizes = Inr chain_example_buffer"
  by code_simp

lemma chain_example_run_seq:
  "runBench example_ops chain_example_sizes chain_example_buffer 1 0 0 0 0 =
     Inr \<lparr>buffer = chain_example_buffer, lsum = 544, aCount = 34,
          reads = [0, 0, 0, 28, 56, 16, 44, 4, 32, 60, 20, 48, 8, 36, 64, 24, 52, 12, 40,
                   0, 0, 0, 0, 0, 0, 0, 0, 0, 0, 0, 0, 0, 0, 0, 0, 0, 0]\<rparr>"
  by code_simp

text \<open>Claim C4: on the buffer built for a normalized pair, the loop of the sequential
  read mode (\<open>idx += idxIncr\<close>, wrapped by subtracting \<open>idxMax\<close>) and the loop of the chain
  read mode (\<open>p = p->next\<close>), both started at entry 0 and run for any number \<open>mx\<close> of steps,
  end with their cursors on the same entry and with the same run: they have read the same
  entries in the same order, namely the entries \<open>seq_walk g 0\<close>, ...,
  \<open>seq_walk g (mx - 1)\<close>, whose payloads are their own indices. So a traversal gives
  the same result in both modes, and so does a whole call of \<open>runBench\<close>. The link walk
  and the strided walk are at the same entry after any number of steps, and within
  \<open>blocks\<close> steps each of them visits exactly the block starts: both modes visit the
  same set of offsets, in the same cyclic order from the same start.\<close>

theorem seq_and_chain_same_offsets:
  assumes init: "initBufs g0 = Some (Inr g)"
    and cop: "gcd_u64 (blocks g) (blockDiff g) = 1"
    and b58: "blocks g < 2 ^ 58" and nz: "blocks g \<noteq> 0"
  shows "\<exists>buf. init_memory_per_thread F g = Inr buf \<and>
           (\<forall>mx r. buffer r = buf \<longrightarrow>
              (\<exists>r'. for_j (step_seq_read F (idxIncr_of g) (idxMax_of g)) mx 0 (0, r) =
                       Inr (seq_walk g (unat mx), r') \<and>
                     for_j (step_chain_read F) mx 0 (Some 0, r) =
                       Inr (Some (unat (seq_walk g (unat mx))), r') \<and>
                     reads r' = reads r @ map (\<lambda>n. of_u64 F (seq_walk g n)) [0..<unat mx])) \<and>
           (\<forall>d r. buffer r = buf \<longrightarrow>
              (\<exists>r'. traverse F g 0 d r = Inr r' \<and> traverse F g 1 d r = Inr r')) \<and>
           (\<forall>iter sum0 aCnt.
              runBench F g buf iter 0 0 sum0 aCnt = runBench F g buf iter 1 0 sum0 aCnt) \<and>
           (\<forall>n. chain_walk buf n = Some (unat (seq_walk g n))) \<and>
           unat ` seq_walk g ` {..<unat (blocks g)} = block_starts g \<and>
           chain_walk buf ` {..<unat (blocks g)} = Some ` block_starts g"
proof -
  let ?B = "unat (blocks g)" and ?S = "unat (blockDiff g)"
  from normalized_pair [OF init cop] nz have le: "blockDiff g \<le> blocks g" by simp
  have c: "coprime ?B ?S" using cop by (simp add: gcd_u64_eq1_iff)
  have B0: "0 < ?B" using nz by (simp add: unat_gt_0)
  from built_chain [OF cop nz le b58, of F] obtain buf
    where run: "init_memory_per_thread F g = Inr buf" and len: "length buf = 4 * ?B"
      and w: "\<And>n. chain_walk buf n = Some (chain_pos ?B ?S n)" by blast
  have s: "unat (seq_walk g n) = chain_pos ?B ?S n" for n
    by (rule seq_walk_pos [OF B0 le b58])
  have cw: "chain_walk buf n = Some (unat (seq_walk g n))" for n using w s by simp
  have rng: "unat (seq_walk g n) < length buf" for n
    using chain_pos_less [OF B0, of ?S n] s len by simp
  have pay: "val (buf ! unat (seq_walk g n)) = of_u64 F (seq_walk g n)" for n
    using built_payload [OF cop nz le b58 run rng [of n]] by simp
  have 1: "\<forall>mx r. buffer r = buf \<longrightarrow>
      (\<exists>r'. for_j (step_seq_read F (idxIncr_of g) (idxMax_of g)) mx 0 (0, r) =
               Inr (seq_walk g (unat mx), r') \<and>
             for_j (step_chain_read F) mx 0 (Some 0, r) =
               Inr (Some (unat (seq_walk g (unat mx))), r') \<and>
             reads r' = reads r @ map (\<lambda>n. of_u64 F (seq_walk g n)) [0..<unat mx])"
  proof (intro allI impI)
    fix mx :: u64 and r :: "'a run"
    assume b: "buffer r = buf"
    let ?xs = "map (\<lambda>n. val (buf ! unat (seq_walk g n))) [0..<unat mx]"
    let ?r' = "foldl (\<lambda>r x. add_sum F x r) r ?xs"
    note l = read_loops_agree [of buf g r F mx, OF cw rng b]
    have "?xs = map (\<lambda>n. of_u64 F (seq_walk g n)) [0..<unat mx]" using pay by simp
    then have "reads ?r' = reads r @ map (\<lambda>n. of_u64 F (seq_walk g n)) [0..<unat mx]"
      using foldl_add_sum [of F r ?xs] by simp
    with l show "\<exists>r'. for_j (step_seq_read F (idxIncr_of g) (idxMax_of g)) mx 0 (0, r) =
               Inr (seq_walk g (unat mx), r') \<and>
             for_j (step_chain_read F) mx 0 (Some 0, r) =
               Inr (Some (unat (seq_walk g (unat mx))), r') \<and>
             reads r' = reads r @ map (\<lambda>n. of_u64 F (seq_walk g n)) [0..<unat mx]"
      by blast
  qed
  have t: "\<exists>r'. traverse F g 0 d r = Inr r' \<and> traverse F g 1 d r = Inr r' \<and> buffer r' = buf"
    if "buffer r = buf" for d and r :: "'a run"
    by (rule traverse_modes_agree [OF cw rng that])
  then have 2: "\<forall>d r. buffer r = buf \<longrightarrow>
      (\<exists>r'. traverse F g 0 d r = Inr r' \<and> traverse F g 1 d r = Inr r')" by blast
  have tr: "traverse F g 0 d r = traverse F g 1 d r" if "buffer r = buf" for d and r :: "'a run"
    using t [OF that, of d] by auto
  have 3: "\<forall>iter sum0 aCnt.
      runBench F g buf iter 0 0 sum0 aCnt = runBench F g buf iter 1 0 sum0 aCnt"
    using for_i_modes_agree [of buf F g, OF tr] by (simp add: runBench_def)
  have img: "chain_pos ?B ?S ` {..<?B} = block_starts g"
    using chain_pos_image [OF c B0] by (simp add: block_starts_eq)
  have 4: "unat ` seq_walk g ` {..<?B} = block_starts g"
    using img s by (simp add: image_image)
  have "chain_walk buf ` {..<?B} = Some ` (chain_pos ?B ?S ` {..<?B})"
    using w by (simp add: image_image)
  with img have 5: "chain_walk buf ` {..<?B} = Some ` block_starts g" by simp
  have 6: "\<forall>n. chain_walk buf n = Some (unat (seq_walk g n))" using cw by blast
  show ?thesis
    by (intro conjI exI [of _ buf]) (rule run 1 2 3 6 4 5)+
qed

theorem seq_and_chain_same_offsets_witness:
  "initBufs chain_example = Some (Inr chain_example_sizes) \<and>
   gcd_u64 (blocks chain_example_sizes) (blockDiff chain_example_sizes) = 1 \<and>
   blocks chain_example_sizes < 2 ^ 58 \<and> blocks chain_example_sizes \<noteq> 0 \<and>
   (\<exists>buf. init_memory_per_thread example_ops chain_example_sizes = Inr buf \<and>
      runBench example_ops chain_example_sizes buf 1 0 0 0 0 =
        Inr \<lparr>buffer = buf, lsum = 544, aCount = 34,
             reads = [0, 0, 0, 28, 56, 16, 44, 4, 32, 60, 20, 48, 8, 36, 64, 24, 52, 12, 40,
                      0, 0, 0, 0, 0, 0, 0, 0, 0, 0, 0, 0, 0, 0, 0, 0, 0, 0]\<rparr> \<and>
      runBench example_ops chain_example_sizes buf 1 1 0 0 0 =
        Inr \<lparr>buffer = buf, lsum = 544, aCount = 34,
             reads = [0, 0, 0, 28, 56, 16, 44, 4, 32, 60, 20, 48, 8, 36, 64, 24, 52, 12, 40,
                      0, 0, 0, 0, 0, 0, 0, 0, 0, 0, 0, 0, 0, 0, 0, 0, 0, 0]\<rparr> \<and>
      (\<forall>mx r. buffer r = buf \<longrightarrow>
         (\<exists>r'. for_j (step_seq_read example_ops (idxIncr_of chain_example_sizes)
                    (idxMax_of chain_example_sizes)) mx 0 (0, r) =
                  Inr (seq_walk chain_example_sizes (unat mx), r') \<and>
                for_j (step_chain_read example_ops) mx 0 (Some 0, r) =
                  Inr (Some (unat (seq_walk chain_example_sizes (unat mx))), r') \<and>
                reads r' = reads r @
                  map (\<lambda>n. of_u64 example_ops (seq_walk chain_example_sizes n)) [0..<unat mx])) \<and>
      (\<forall>d r. buffer r = buf \<longrightarrow>
         (\<exists>r'. traverse example_ops chain_example_sizes 0 d r = Inr r' \<and>
               traverse example_ops chain_example_sizes 1 d r = Inr r')) \<and>
      (\<forall>n. chain_walk buf n = Some (unat (seq_walk chain_example_sizes n))) \<and>
      unat ` seq_walk chain_example_sizes ` {..<unat (blocks chain_example_sizes)} =
        block_starts chain_example_sizes \<and>
      chain_walk buf ` {..<unat (blocks chain_example_sizes)} =
        Some ` block_starts chain_example_sizes)"
proof -
  from seq_and_chain_same_offsets [OF chain_example_initBufs chain_example_coprime
      chain_example_size chain_example_nonempty, of example_ops]
  obtain buf where P: "init_memory_per_thread example_ops chain_example_sizes = Inr buf \<and>
      (\<forall>mx r. buffer r = buf \<longrightarrow>
         (\<exists>r'. for_j (step_seq_read example_ops (idxIncr_of chain_example_sizes)
                    (idxMax_of chain_example_sizes)) mx 0 (0, r) =
                  Inr (seq_walk chain_example_sizes (unat mx), r') \<and>
                for_j (step_chain_read example_ops) mx 0 (Some 0, r) =
                  Inr (Some (unat (seq_walk chain_example_sizes (unat mx))), r') \<and>
                reads r' = reads r @
                  map (\<lambda>n. of_u64 example_ops (seq_walk chain_example_sizes n)) [0..<unat mx])) \<and>
      (\<forall>d r. buffer r = buf \<longrightarrow>
         (\<exists>r'. traverse example_ops chain_example_sizes 0 d r = Inr r' \<and>
               traverse example_ops chain_example_sizes 1 d r = Inr r')) \<and>
      (\<forall>iter sum0 aCnt.
         runBench example_ops chain_example_sizes buf iter 0 0 sum0 aCnt =
         runBench example_ops chain_example_sizes buf iter 1 0 sum0 aCnt) \<and>
      (\<forall>n. chain_walk buf n = Some (unat (seq_walk chain_example_sizes n))) \<and>
      unat ` seq_walk chain_example_sizes ` {..<unat (blocks chain_example_sizes)} =
        block_starts chain_example_sizes \<and>
      chain_walk buf ` {..<unat (blocks chain_example_sizes)} =
        Some ` block_starts chain_example_sizes" ..
  note i = P [THEN conjunct1]
  note 1 = P [THEN conjunct2, THEN conjunct1]
  note 2 = P [THEN conjunct2, THEN conjunct2, THEN conjunct1]
  note 3 = P [THEN conjunct2, THEN conjunct2, THEN conjunct2, THEN conjunct1]
  note 4 = P [THEN conjunct2, THEN conjunct2, THEN conjunct2, THEN conjunct2, THEN conjunct1]
  note 5 = P [THEN conjunct2, THEN conjunct2, THEN conjunct2, THEN conjunct2, THEN conjunct2,
      THEN conjunct1]
  note 6 = P [THEN conjunct2, THEN conjunct2, THEN conjunct2, THEN conjunct2, THEN conjunct2,
      THEN conjunct2]
  from i chain_example_built have be: "buf = chain_example_buffer" by simp
  have r0: "runBench example_ops chain_example_sizes buf 1 0 0 0 0 =
        Inr \<lparr>buffer = buf, lsum = 544, aCount = 34,
             reads = [0, 0, 0, 28, 56, 16, 44, 4, 32, 60, 20, 48, 8, 36, 64, 24, 52, 12, 40,
                      0, 0, 0, 0, 0, 0, 0, 0, 0, 0, 0, 0, 0, 0, 0, 0, 0, 0]\<rparr>"
    unfolding be by (rule chain_example_run_seq)
  have "runBench example_ops chain_example_sizes buf 1 1 0 0 0 =
      runBench example_ops chain_example_sizes buf 1 0 0 0 0"
    by (rule 3 [THEN spec, THEN spec, THEN spec, symmetric])
  then have r1: "runBench example_ops chain_example_sizes buf 1 1 0 0 0 =
        Inr \<lparr>buffer = buf, lsum = 544, aCount = 34,
             reads = [0, 0, 0, 28, 56, 16, 44, 4, 32, 60, 20, 48, 8, 36, 64, 24, 52, 12, 40,
                      0, 0, 0, 0, 0, 0, 0, 0, 0, 0, 0, 0, 0, 0, 0, 0, 0, 0]\<rparr>"
    by (simp only: r0)
  show ?thesis
    by (intro conjI exI [of _ buf])
       (rule chain_example_initBufs chain_example_coprime chain_example_size
          chain_example_nonempty i r0 r1 1 2 4 5 6)+
qed

section \<open>Calls of runBench return\<close>

lemma for_j_total:
  assumes step: "\<And>s. Q s \<Longrightarrow> \<exists>s'. body s = Inr s' \<and> Q s'"
  shows "Q s \<Longrightarrow> \<exists>s'. for_j body mx j s = Inr s' \<and> Q s'"
proof (induction "unat mx - unat j" arbitrary: j s rule: less_induct)
  case less
  show ?case
  proof (cases "j < mx")
    case False
    with less.prems show ?thesis by (simp add: for_j.simps [of body mx j s])
  next
    case True
    from step [OF less.prems] obtain s1 where b: "body s = Inr s1" and q: "Q s1" by blast
    from less.hyps [OF word_succ_measure [OF True] q]
    obtain s' where "for_j body mx (j + 1) s1 = Inr s' \<and> Q s'" by blast
    with True b show ?thesis by (simp add: for_j.simps [of body mx j s])
  qed
qed

lemma sizes_ok_idx:
  assumes "sizes_ok g"
  shows "unat (idxMax_of g) = 4 * unat (blocks g)" "unat (idxIncr_of g) = 4 * unat (blockDiff g)"
    "unat (blockDiff g) \<le> unat (blocks g)" "0 < unat (blocks g)" "unat (idxMax_of g) < 2 ^ 63"
proof -
  from assms have nz: "blocks g \<noteq> 0" and le: "blockDiff g \<le> blocks g" and b58: "blocks g < 2 ^ 58"
    by (simp_all add: sizes_ok_def)
  have d58: "blockDiff g < 2 ^ 58" using le b58 by simp
  show mx: "unat (idxMax_of g) = 4 * unat (blocks g)"
    unfolding idxMax_of_def by (rule unat_idx_of [OF b58])
  show "unat (idxIncr_of g) = 4 * unat (blockDiff g)"
    unfolding idxIncr_of_def by (rule unat_idx_of [OF d58])
  show "unat (blockDiff g) \<le> unat (blocks g)" using le by (simp add: word_le_nat_alt)
  show "0 < unat (blocks g)" using nz by (simp add: unat_gt_0)
  have B58: "unat (blocks g) < 2 ^ 58" using b58 by (simp add: word_less_nat_alt)
  have "4 * unat (blocks g) < 4 * 2 ^ 58" using B58 by simp
  also have "(4 :: nat) * 2 ^ 58 \<le> 2 ^ 63" by simp
  finally show "unat (idxMax_of g) < 2 ^ 63" using mx by simp
qed

lemma advance_in_range:
  assumes ok: "sizes_ok g" and i: "unat idx < 4 * unat (blocks g)"
  shows "unat (advance (idxIncr_of g) (idxMax_of g) idx) < 4 * unat (blocks g)"
proof -
  note f = sizes_ok_idx [OF ok]
  have "unat (advance (idxIncr_of g) (idxMax_of g) idx) =
      (unat idx + unat (idxIncr_of g)) mod unat (idxMax_of g)"
  proof (rule unat_advance)
    show "unat idx < unat (idxMax_of g)" using i f(1) by simp
    show "unat (idxIncr_of g) \<le> unat (idxMax_of g)" using f(1,2,3) by simp
    show "unat (idxMax_of g) < 2 ^ 63" by (rule f(5))
  qed
  moreover have "(unat idx + unat (idxIncr_of g)) mod unat (idxMax_of g) < unat (idxMax_of g)"
    using f(1,4) by (intro mod_less_divisor) simp
  ultimately show ?thesis using f(1) by simp
qed

text \<open>The sequential modes keep the index inside the buffer.\<close>

lemma step_seq_read_total:
  assumes ok: "sizes_ok g"
    and q: "unat (fst s) < 4 * unat (blocks g) \<and> chain_ok g (buffer (snd s))"
  shows "\<exists>s'. step_seq_read F (idxIncr_of g) (idxMax_of g) s = Inr s' \<and>
           unat (fst s') < 4 * unat (blocks g) \<and> chain_ok g (buffer (snd s'))"
proof -
  obtain idx r where s: "s = (idx, r)" by (cases s)
  with q have i: "unat idx < 4 * unat (blocks g)" and c: "chain_ok g (buffer r)" by simp_all
  from c i have "unat idx < length (buffer r)" by (simp add: chain_ok_def)
  with s advance_in_range [OF ok i] c show ?thesis
    by (simp add: step_seq_read_def add_sum_def)
qed

lemma chain_ok_val_update:
  "chain_ok g buf \<Longrightarrow> i < length buf \<Longrightarrow> chain_ok g (buf[i := (buf ! i)\<lparr>val := x\<rparr>])"
  by (simp add: chain_ok_def nth_list_update)

lemma step_seq_write_total:
  assumes ok: "sizes_ok g"
    and q: "unat (fst s) < 4 * unat (blocks g) \<and> chain_ok g (buffer (snd s))"
  shows "\<exists>s'. step_seq_write F (idxIncr_of g) (idxMax_of g) s = Inr s' \<and>
           unat (fst s') < 4 * unat (blocks g) \<and> chain_ok g (buffer (snd s'))"
proof -
  obtain idx r where s: "s = (idx, r)" by (cases s)
  with q have i: "unat idx < 4 * unat (blocks g)" and c: "chain_ok g (buffer r)" by simp_all
  from c i have l: "unat idx < length (buffer r)" by (simp add: chain_ok_def)
  with s advance_in_range [OF ok i] chain_ok_val_update [OF c l] show ?thesis
    by (simp add: step_seq_write_def add_sum_def Let_def)
qed

text \<open>The chain modes stay on the linked block starts.\<close>

lemma chain_target:
  fixes i B S :: nat
  assumes "0 < B" "4 dvd i"
  shows "4 dvd (i + 4 * S) mod (4 * B) \<and> (i + 4 * S) mod (4 * B) < 4 * B"
proof -
  have "4 dvd i + 4 * S" using assms(2) by simp
  moreover have "(4 :: nat) dvd 4 * B" by simp
  ultimately have "4 dvd (i + 4 * S) mod (4 * B)" by (simp add: dvd_mod)
  moreover have "(i + 4 * S) mod (4 * B) < 4 * B" using assms(1) by simp
  ultimately show ?thesis ..
qed

lemma step_chain_read_total:
  assumes ok: "sizes_ok g" and q: "on_chain g s"
  shows "\<exists>s'. step_chain_read F s = Inr s' \<and> on_chain g s'"
proof -
  obtain p r where s: "s = (p, r)" by (cases s)
  with q obtain i where p: "p = Some i" and d: "4 dvd i" and i: "i < 4 * unat (blocks g)"
    and c: "chain_ok g (buffer r)" by (auto simp add: on_chain_def)
  from c i have l: "i < length (buffer r)" by (simp add: chain_ok_def)
  from c l d have n: "nxt (buffer r ! i) = Some ((i + 4 * unat (blockDiff g)) mod (4 * unat (blocks g)))"
    by (simp add: chain_ok_def)
  from chain_target [OF sizes_ok_idx(4) [OF ok] d, of "unat (blockDiff g)"] s p l n c
  show ?thesis by (simp add: step_chain_read_def add_sum_def on_chain_def)
qed

lemma step_chain_write_total:
  assumes ok: "sizes_ok g" and q: "on_chain g s"
  shows "\<exists>s'. step_chain_write F s = Inr s' \<and> on_chain g s'"
proof -
  obtain p r where s: "s = (p, r)" by (cases s)
  with q obtain i where p: "p = Some i" and d: "4 dvd i" and i: "i < 4 * unat (blocks g)"
    and c: "chain_ok g (buffer r)" by (auto simp add: on_chain_def)
  from c i have l: "i < length (buffer r)" by (simp add: chain_ok_def)
  from c l d have n: "nxt (buffer r ! i) = Some ((i + 4 * unat (blockDiff g)) mod (4 * unat (blocks g)))"
    by (simp add: chain_ok_def)
  from chain_target [OF sizes_ok_idx(4) [OF ok] d, of "unat (blockDiff g)"] s p l n
    chain_ok_val_update [OF c l, of "d_v F"]
  show ?thesis by (simp add: step_chain_write_def add_sum_def on_chain_def Let_def)
qed

lemma traverse_total:
  assumes ok: "sizes_ok g" and c: "chain_ok g (buffer r)"
    and bt: "bt = 0 \<or> bt = 1 \<or> bt = 2 \<or> bt = 3"
  shows "\<exists>r'. traverse F g bt d r = Inr r' \<and> chain_ok g (buffer r')"
proof -
  let ?mx = "distBlocks g ! nat d"
  let ?r1 = "r\<lparr>aCount := aCount r + ?mx\<rparr>"
  have c1: "chain_ok g (buffer ?r1)" using c by simp
  have z: "unat (0 :: u64) < 4 * unat (blocks g)" using sizes_ok_idx(4) [OF ok] by simp
  consider "bt = 0" | "bt = 1" | "bt = 2" | "bt = 3" using bt by blast
  then show ?thesis
  proof cases
    case 1
    have "\<exists>s'. for_j (step_seq_read F (idxIncr_of g) (idxMax_of g)) ?mx 0 (0, ?r1) = Inr s' \<and>
        (unat (fst s') < 4 * unat (blocks g) \<and> chain_ok g (buffer (snd s')))"
      by (rule for_j_total [where Q = "\<lambda>s. unat (fst s) < 4 * unat (blocks g) \<and> chain_ok g (buffer (snd s))"])
         (use step_seq_read_total [OF ok] c1 z in simp_all)
    with 1 show ?thesis by (auto simp add: traverse_def Let_def)
  next
    case 2
    have "on_chain g (Some 0, ?r1)" using c1 sizes_ok_idx(4) [OF ok] by (simp add: on_chain_def)
    then have "\<exists>s'. for_j (step_chain_read F) ?mx 0 (Some 0, ?r1) = Inr s' \<and> on_chain g s'"
      by (rule for_j_total [rotated]) (rule step_chain_read_total [OF ok])
    with 2 show ?thesis by (auto simp add: traverse_def Let_def on_chain_def)
  next
    case 3
    have "\<exists>s'. for_j (step_seq_write F (idxIncr_of g) (idxMax_of g)) ?mx 0 (0, ?r1) = Inr s' \<and>
        (unat (fst s') < 4 * unat (blocks g) \<and> chain_ok g (buffer (snd s')))"
      by (rule for_j_total [where Q = "\<lambda>s. unat (fst s) < 4 * unat (blocks g) \<and> chain_ok g (buffer (snd s))"])
         (use step_seq_write_total [OF ok] c1 z in simp_all)
    with 3 show ?thesis by (auto simp add: traverse_def Let_def)
  next
    case 4
    have "on_chain g (Some 0, ?r1)" using c1 sizes_ok_idx(4) [OF ok] by (simp add: on_chain_def)
    then have "\<exists>s'. for_j (step_chain_write F) ?mx 0 (Some 0, ?r1) = Inr s' \<and> on_chain g s'"
      by (rule for_j_total [rotated]) (rule step_chain_write_total [OF ok])
    with 4 show ?thesis by (auto simp add: traverse_def Let_def on_chain_def)
  qed
qed

lemma unat_of_int_small: "0 \<le> k \<Longrightarrow> k \<le> 2147483647 \<Longrightarrow> unat (word_of_int k :: u64) = nat k"
proof -
  assume k: "0 \<le> k" "k \<le> 2147483647"
  have "(word_of_int k :: u64) = word_of_nat (nat k)" using k by simp
  moreover have "nat k < 2 ^ LENGTH(64)" using k by simp
  then have "unat (word_of_nat (nat k) :: u64) = nat k" by (rule of_nat_inverse [OF refl])
  ultimately show ?thesis by simp
qed

lemma for_k_total:
  assumes step: "\<And>s. W s \<Longrightarrow> \<exists>s'. body s = Inr s' \<and> W s'"
    and small: "unat n \<le> 2147483647"
  shows "W s \<Longrightarrow> 0 \<le> k \<Longrightarrow> k \<le> int (unat n) \<Longrightarrow> \<exists>s'. for_k body n k s = Inr s' \<and> W s'"
proof (induction "nat (int (unat n) - k)" arbitrary: k s rule: less_induct)
  case less
  have kle: "k \<le> 2147483647" using less.prems(3) small by linarith
  have u: "unat (word_of_int k :: u64) = nat k"
    using less.prems(2) kle by (rule unat_of_int_small)
  show ?case
  proof (cases "(word_of_int k :: u64) < n")
    case False
    with less.prems show ?thesis by (simp add: for_k.simps [of body n k s])
  next
    case True
    then have "nat k < unat n" using u by (simp add: word_less_nat_alt)
    then have lt: "k < int (unat n)" using less.prems(2) by linarith
    with small have no: "\<not> 2147483647 \<le> k" by linarith
    from step [OF less.prems(1)] obtain s1 where b: "body s = Inr s1" and w: "W s1" by blast
    have m: "nat (int (unat n) - (k + 1)) < nat (int (unat n) - k)" using lt by simp
    from less.hyps [OF m w] less.prems lt
    obtain s' where "for_k body n (k + 1) s1 = Inr s' \<and> W s'" by auto
    with True b no show ?thesis by (simp add: for_k.simps [of body n k s])
  qed
qed

lemma for_k_overflow:
  assumes step: "\<And>s. W s \<Longrightarrow> \<exists>s'. body s = Inr s' \<and> W s'"
    and big: "2147483647 < unat n"
  shows "W s \<Longrightarrow> 0 \<le> k \<Longrightarrow> k \<le> 2147483647 \<Longrightarrow> for_k body n k s = Inl SignedOverflow"
proof (induction "nat (2147483647 - k)" arbitrary: k s rule: less_induct)
  case less
  have u: "unat (word_of_int k :: u64) = nat k"
    using less.prems by (intro unat_of_int_small) simp_all
  then have lt: "(word_of_int k :: u64) < n" using big less.prems by (simp add: word_less_nat_alt)
  from step [OF less.prems(1)] obtain s1 where b: "body s = Inr s1" and w: "W s1" by blast
  show ?case
  proof (cases "2147483647 \<le> k")
    case True
    with lt b show ?thesis by (simp add: for_k.simps [of body n k s])
  next
    case False
    then have m: "nat (2147483647 - (k + 1)) < nat (2147483647 - k)" by simp
    from less.hyps [OF m w] less.prems False
    have "for_k body n (k + 1) s1 = Inl SignedOverflow" by simp
    with lt b False show ?thesis by (simp add: for_k.simps [of body n k s])
  qed
qed

lemma touch_first_total:
  assumes ok: "sizes_ok g" and c: "chain_ok g (buffer r)"
  shows "\<exists>r'. touch_first F r = Inr r' \<and> chain_ok g (buffer r')"
proof -
  have "0 < length (buffer r)" using c sizes_ok_idx(4) [OF ok] by (simp add: chain_ok_def)
  with c show ?thesis by (simp add: touch_first_def add_sum_def)
qed

lemma for_d_total:
  assumes ok: "sizes_ok g" and dok: "dists_ok g"
    and bt: "bt = 0 \<or> bt = 1 \<or> bt = 2 \<or> bt = 3"
    and small: "\<forall>e < nat (distsUsed g). unat (distIter g ! e) \<le> 2147483647"
  shows "0 \<le> d \<Longrightarrow> chain_ok g (buffer r) \<Longrightarrow>
     \<exists>r'. for_d F g bt d r = Inr r' \<and> chain_ok g (buffer r')"
proof (induction "nat (distsUsed g - d)" arbitrary: d r rule: less_induct)
  case less
  show ?case
  proof (cases "d < distsUsed g")
    case False
    with less.prems show ?thesis by (simp add: for_d.simps [of F g bt d r])
  next
    case True
    with less.prems dok have rng: "0 \<le> d \<and> nat d < length (distIter g) \<and> nat d < length (distBlocks g)"
      unfolding dists_ok_def by linarith
    from touch_first_total [OF ok less.prems(2), of F]
    obtain r1 where a: "touch_first F r = Inr r1" and c1: "chain_ok g (buffer r1)" by blast
    have sm: "unat (distIter g ! nat d) \<le> 2147483647" using small True less.prems(1) by simp
    have "\<exists>r2. for_k (traverse F g bt d) (distIter g ! nat d) 0 r1 = Inr r2 \<and> chain_ok g (buffer r2)"
      by (rule for_k_total [where W = "\<lambda>r. chain_ok g (buffer r)", OF _ sm c1])
         (use traverse_total [OF ok _ bt] in simp_all)
    then obtain r2 where b: "for_k (traverse F g bt d) (distIter g ! nat d) 0 r1 = Inr r2"
      and c2: "chain_ok g (buffer r2)" by blast
    have m: "nat (distsUsed g - (d + 1)) < nat (distsUsed g - d)" using True by simp
    from less.hyps [OF m _ c2] less.prems(1)
    obtain r' where "for_d F g bt (d + 1) r2 = Inr r' \<and> chain_ok g (buffer r')" by auto
    with True rng a b show ?thesis by (simp add: for_d.simps [of F g bt d r])
  qed
qed

lemma for_d_overflow:
  assumes ok: "sizes_ok g" and dok: "dists_ok g"
    and bt: "bt = 0 \<or> bt = 1 \<or> bt = 2 \<or> bt = 3"
  shows "0 \<le> d \<Longrightarrow> chain_ok g (buffer r) \<Longrightarrow>
     \<exists>e. d \<le> e \<and> e < distsUsed g \<and> 2147483647 < unat (distIter g ! nat e) \<Longrightarrow>
     for_d F g bt d r = Inl SignedOverflow"
proof (induction "nat (distsUsed g - d)" arbitrary: d r rule: less_induct)
  case less
  from less.prems(3) obtain e where e: "d \<le> e" "e < distsUsed g" "2147483647 < unat (distIter g ! nat e)"
    by blast
  then have True: "d < distsUsed g" by simp
  with less.prems(1) dok have rng: "0 \<le> d \<and> nat d < length (distIter g) \<and> nat d < length (distBlocks g)"
    unfolding dists_ok_def by linarith
  from touch_first_total [OF ok less.prems(2), of F]
  obtain r1 where a: "touch_first F r = Inr r1" and c1: "chain_ok g (buffer r1)" by blast
  have tr: "\<exists>s'. traverse F g bt d s = Inr s' \<and> chain_ok g (buffer s')"
    if "chain_ok g (buffer s)" for s
    by (rule traverse_total [OF ok that bt])
  show ?case
  proof (cases "2147483647 < unat (distIter g ! nat d)")
    case big: True
    have "for_k (traverse F g bt d) (distIter g ! nat d) 0 r1 = Inl SignedOverflow"
      by (rule for_k_overflow [where W = "\<lambda>r. chain_ok g (buffer r)", OF tr big c1]) simp_all
    with True rng a show ?thesis by (simp add: for_d.simps [of F g bt d r])
  next
    case False
    then have sm: "unat (distIter g ! nat d) \<le> 2147483647" by simp
    have "\<exists>r2. for_k (traverse F g bt d) (distIter g ! nat d) 0 r1 = Inr r2 \<and> chain_ok g (buffer r2)"
      by (rule for_k_total [where W = "\<lambda>r. chain_ok g (buffer r)", OF tr sm c1]) simp_all
    then obtain r2 where b: "for_k (traverse F g bt d) (distIter g ! nat d) 0 r1 = Inr r2"
      and c2: "chain_ok g (buffer r2)" by blast
    from False e have "e \<noteq> d" by auto
    with e have e1: "d + 1 \<le> e" by simp
    have m: "nat (distsUsed g - (d + 1)) < nat (distsUsed g - d)" using True by simp
    from less.hyps [OF m _ c2] less.prems(1) e e1
    have "for_d F g bt (d + 1) r2 = Inl SignedOverflow" by auto
    with True rng a b show ?thesis by (simp add: for_d.simps [of F g bt d r])
  qed
qed

lemma for_i_total:
  assumes ok: "sizes_ok g" and dok: "dists_ok g"
    and bt: "bt = 0 \<or> bt = 1 \<or> bt = 2 \<or> bt = 3"
    and small: "\<forall>e < nat (distsUsed g). unat (distIter g ! e) \<le> 2147483647"
  shows "chain_ok g (buffer r) \<Longrightarrow> \<exists>r'. for_i F g bt iter i r = Inr r' \<and> chain_ok g (buffer r')"
proof (induction "unat iter - unat i" arbitrary: i r rule: less_induct)
  case less
  show ?case
  proof (cases "i < iter")
    case False
    with less.prems show ?thesis by (simp add: for_i.simps [of F g bt iter i r])
  next
    case True
    from touch_first_total [OF ok less.prems, of F]
    obtain r1 where a: "touch_first F r = Inr r1" and c1: "chain_ok g (buffer r1)" by blast
    from for_d_total [OF ok dok bt small _ c1, of 0 F]
    obtain r2 where b: "for_d F g bt 0 r1 = Inr r2" and c2: "chain_ok g (buffer r2)" by auto
    from less.hyps [OF word_succ_measure [OF True] c2]
    obtain r' where "for_i F g bt iter (i + 1) r2 = Inr r' \<and> chain_ok g (buffer r')" by blast
    with True a b show ?thesis by (simp add: for_i.simps [of F g bt iter i r])
  qed
qed

lemma runBench_returns:
  assumes ok: "sizes_ok g" and dok: "dists_ok g" and c: "chain_ok g buf"
    and dc: "depChain = 0 \<or> depChain = 1" and dw: "doWrite = 0 \<or> doWrite = 1"
    and small: "\<forall>e < nat (distsUsed g). unat (distIter g ! e) \<le> 2147483647"
  shows "\<exists>r. runBench F g buf iter depChain doWrite sum0 aCnt = Inr r"
proof -
  have bt: "depChain + 2 * doWrite = 0 \<or> depChain + 2 * doWrite = 1 \<or>
      depChain + 2 * doWrite = 2 \<or> depChain + 2 * doWrite = 3"
    using dc dw by auto
  from for_i_total [OF ok dok bt small, of "\<lparr>buffer = buf, lsum = sum0, aCount = aCnt, reads = []\<rparr>" F iter 0] c
  show ?thesis by (auto simp add: runBench_def)
qed

lemma runBench_overflows:
  assumes ok: "sizes_ok g" and dok: "dists_ok g" and c: "chain_ok g buf"
    and dc: "depChain = 0 \<or> depChain = 1" and dw: "doWrite = 0 \<or> doWrite = 1"
    and big: "0 \<le> e" "e < distsUsed g" "2147483647 < unat (distIter g ! nat e)"
    and it: "iter \<noteq> 0"
  shows "runBench F g buf iter depChain doWrite sum0 aCnt = Inl SignedOverflow"
proof -
  let ?bt = "depChain + 2 * doWrite"
  let ?r0 = "\<lparr>buffer = buf, lsum = sum0, aCount = aCnt, reads = []\<rparr>"
  have bt: "?bt = 0 \<or> ?bt = 1 \<or> ?bt = 2 \<or> ?bt = 3"
    using dc dw by auto
  have c0: "chain_ok g (buffer ?r0)" using c by simp
  from touch_first_total [OF ok c0, of F]
  obtain r1 where a: "touch_first F ?r0 = Inr r1" and c1: "chain_ok g (buffer r1)" by blast
  have "for_d F g ?bt 0 r1 = Inl SignedOverflow"
    by (rule for_d_overflow [OF ok dok bt _ c1]) (use big in auto)
  moreover have "0 < iter" using it by (simp add: word_neq_0_conv)
  ultimately show ?thesis using a by (simp add: runBench_def for_i.simps [of F g ?bt iter 0 ?r0])
qed

lemma init_memory_chain_ok:
  assumes cop: "gcd_u64 (blocks g) (blockDiff g) = 1" and ok: "sizes_ok g"
  shows "\<exists>buf. init_memory_per_thread F g = Inr buf \<and> chain_ok g buf"
proof -
  let ?B = "unat (blocks g)" and ?S = "unat (blockDiff g)"
  from ok have nz: "blocks g \<noteq> 0" and le: "blockDiff g \<le> blocks g" and b58: "blocks g < 2 ^ 58"
    by (simp_all add: sizes_ok_def)
  have c: "coprime ?B ?S" using cop by (simp add: gcd_u64_eq1_iff)
  note f = sizes_ok_idx [OF ok]
  have len0: "length (fresh_buffer F (idxMax_of g)) = 4 * ?B" using f(1) by simp
  from init_memory_linked [OF cop nz le b58, of F] obtain buf
    where run: "init_memory_per_thread F g = Inr buf"
      and l: "linked ?B ?S ?B (fresh_buffer F (idxMax_of g)) buf" by blast
  have len: "length buf = 4 * ?B" using l len0 by (simp add: linked_def)
  have "chain_ok g buf"
    unfolding chain_ok_def using len linked_full [OF c f(4) l len0] by simp
  with run show ?thesis by blast
qed

section \<open>The cursors of the read-only modes\<close>

text \<open>In \<open>runBench\<close> the index of the sequential loop and the pointer of the chain loop are
  the walks \<open>seq_walk\<close> and \<open>chain_walk\<close>.\<close>

lemma for_j_seq_cursor:
  "j \<le> mx \<Longrightarrow> for_j (step_seq_read F inc m) mx j (idx, r) = Inr (idx', r') \<Longrightarrow>
     idx' = (advance inc m ^^ (unat mx - unat j)) idx"
proof (induction "unat mx - unat j" arbitrary: j idx r rule: less_induct)
  case less
  show ?case
  proof (cases "j < mx")
    case False
    with less.prems(1) have "j = mx" by simp
    with less.prems(2) show ?thesis by (simp add: for_j.simps [of _ mx mx])
  next
    case True
    obtain s1 where b: "step_seq_read F inc m (idx, r) = Inr s1"
      using less.prems(2) True
      by (subst (asm) for_j.simps) (cases "step_seq_read F inc m (idx, r)"; simp)
    then obtain r1 where s1: "s1 = (advance inc m idx, r1)"
      by (auto simp add: step_seq_read_def split: if_splits)
    have rest: "for_j (step_seq_read F inc m) mx (j + 1) (advance inc m idx, r1) = Inr (idx', r')"
      using less.prems(2) True b s1 by (subst (asm) for_j.simps) simp
    have le: "j + 1 \<le> mx" using True by (simp add: inc_le)
    have lt: "unat j < unat mx" using True by (simp add: word_less_nat_alt)
    have m: "unat mx - unat (j + 1) < unat mx - unat j" by (rule word_succ_measure [OF True])
    have u: "unat (j + 1) = unat j + 1"
    proof -
      have "unat j + unat (1 :: u64) < 2 ^ LENGTH(64)"
        using lt unsigned_less [of mx, where ?'a = nat] by simp
      then show ?thesis using unat_add_lem [of j 1] by simp
    qed
    have "unat mx - unat j = Suc (unat mx - unat (j + 1))" using lt u by simp
    with less.hyps [OF m le rest] show ?thesis by (simp add: funpow_swap1)
  qed
qed

lemma step_chain_read_cursor:
  "step_chain_read F (p, r) = Inr (p', r') \<Longrightarrow> p' = chain_next (buffer r) p \<and> buffer r' = buffer r"
  by (auto simp add: step_chain_read_def chain_next_def add_sum_def split: option.splits if_splits)

lemma for_j_chain_cursor:
  "j \<le> mx \<Longrightarrow> for_j (step_chain_read F) mx j (p, r) = Inr (p', r') \<Longrightarrow>
     p' = (chain_next (buffer r) ^^ (unat mx - unat j)) p"
proof (induction "unat mx - unat j" arbitrary: j p r rule: less_induct)
  case less
  show ?case
  proof (cases "j < mx")
    case False
    with less.prems(1) have "j = mx" by simp
    with less.prems(2) show ?thesis by (simp add: for_j.simps [of _ mx mx])
  next
    case True
    obtain s1 where b: "step_chain_read F (p, r) = Inr s1"
      using less.prems(2) True
      by (subst (asm) for_j.simps) (cases "step_chain_read F (p, r)"; simp)
    obtain p1 r1 where s1: "s1 = (p1, r1)" by (cases s1)
    from step_chain_read_cursor [OF b [unfolded s1]]
    have p1: "p1 = chain_next (buffer r) p" and b1: "buffer r1 = buffer r" by simp_all
    have rest: "for_j (step_chain_read F) mx (j + 1) (p1, r1) = Inr (p', r')"
      using less.prems(2) True b s1 by (subst (asm) for_j.simps) simp
    have le: "j + 1 \<le> mx" using True by (simp add: inc_le)
    have lt: "unat j < unat mx" using True by (simp add: word_less_nat_alt)
    have m: "unat mx - unat (j + 1) < unat mx - unat j" by (rule word_succ_measure [OF True])
    have u: "unat (j + 1) = unat j + 1"
    proof -
      have "unat j + unat (1 :: u64) < 2 ^ LENGTH(64)"
        using lt unsigned_less [of mx, where ?'a = nat] by simp
      then show ?thesis using unat_add_lem [of j 1] by simp
    qed
    have "unat mx - unat j = Suc (unat mx - unat (j + 1))" using lt u by simp
    with less.hyps [OF m le rest] p1 b1 show ?thesis by (simp add: funpow_swap1)
  qed
qed

text \<open>The cursors of the two read-only modes after a traversal of \<open>mx\<close> steps.\<close>

lemma seq_mode_cursor:
  "for_j (step_seq_read F (idxIncr_of g) (idxMax_of g)) mx 0 (0, r) = Inr (idx', r') \<Longrightarrow>
     idx' = seq_walk g (unat mx)"
  using for_j_seq_cursor [of 0 mx F "idxIncr_of g" "idxMax_of g" 0 r idx' r']
  by (simp add: seq_walk_def)

lemma chain_mode_cursor:
  "for_j (step_chain_read F) mx 0 (Some 0, r) = Inr (p', r') \<Longrightarrow>
     p' = chain_walk (buffer r) (unat mx)"
  using for_j_chain_cursor [of 0 mx F "Some 0" r p' r']
  by (simp add: chain_walk_def)

text \<open>Claim C3: \<open>adjustSize\<close> returns for every positive raw block count and the stride that
  the policy of \<open>initBufs\<close> derives from it (1, or \<open>blocks * 7 / 17\<close> with pseudo-random
  addressing). Where the stride is not 0 and the raw block count is one that \<open>initBufs\<close>
  can compute (below \<open>2^58\<close>), the loop ends within \<open>stride\<close> increments, at a block count
  coprime to the stride.\<close>

theorem adjustSize_terminates:
  assumes "0 < b0"
  shows "\<exists>y. adjustSize b0 (stride_policy pr b0) = Some y \<and>
           (stride_policy pr b0 \<noteq> 0 \<and> b0 < 2 ^ 58 \<longrightarrow>
              b0 \<le> y \<and> unat y < unat b0 + unat (stride_policy pr b0) \<and>
              gcd_u64 y (stride_policy pr b0) = 1)"
proof (cases "stride_policy pr b0 \<noteq> 0 \<and> b0 < 2 ^ 58")
  case False
  with adjustSize_total [of b0 "stride_policy pr b0"] show ?thesis by blast
next
  case True
  then have nz: "stride_policy pr b0 \<noteq> 0" and b58: "b0 < 2 ^ 58" by simp_all
  from stride_policy_le [OF b58, of pr] assms have "stride_policy pr b0 \<le> b0" by auto
  then have "unat (stride_policy pr b0) \<le> unat b0" by (simp add: word_le_nat_alt)
  moreover from b58 have "unat b0 < 2 ^ 58" by (simp add: word_less_nat_alt)
  then have "unat b0 * 64 < 2 ^ 64" by (rule blocks_bytes_bound)
  ultimately have "unat b0 + unat (stride_policy pr b0) \<le> 2 ^ 64" by simp
  from adjustSize_bound [OF nz this] show ?thesis by blast
qed

theorem adjustSize_terminates_witness:
  "(0 :: u64) < 17 \<and> stride_policy 1 17 = 7 \<and>
   (\<exists>y. adjustSize 17 (stride_policy 1 17) = Some y \<and>
      (stride_policy 1 17 \<noteq> 0 \<and> (17 :: u64) < 2 ^ 58 \<longrightarrow>
         17 \<le> y \<and> unat y < unat (17 :: u64) + unat (stride_policy 1 17) \<and>
         gcd_u64 y (stride_policy 1 17) = 1))"
proof -
  have h: "(0 :: u64) < 17" by simp
  have p: "stride_policy 1 17 = 7" by (simp add: stride_policy_def)
  from adjustSize_terminates [OF h, of 1] h p show ?thesis by simp
qed

section \<open>Calls on an initialised buffer\<close>

lemma initBufs_sizes_ok:
  assumes "initBufs g0 = Some (Inr g)" "gcd_u64 (blocks g) (blockDiff g) = 1"
    "blocks g \<noteq> 0" "blocks g < 2 ^ 58"
  shows "sizes_ok g"
  using normalized_pair [OF assms(1,2)] assms(3,4) by (simp add: sizes_ok_def)

text \<open>On a buffer that \<open>init_memory_per_thread\<close> has built for a normalized pair, with
  the distance tables within their arrays and traversal counts that the \<open>int\<close> counter
  \<open>k\<close> can reach, every call returns, with the counter, the sum and (read-only) the
  buffer as stated for the calls that return.\<close>

lemma runBench_returns_initialised:
  assumes init: "initBufs g0 = Some (Inr g)" and cop: "gcd_u64 (blocks g) (blockDiff g) = 1"
    and nz: "blocks g \<noteq> 0" and b58: "blocks g < 2 ^ 58"
    and buf: "init_memory_per_thread F g = Inr buf"
    and dok: "dists_ok g"
    and small: "\<forall>e < nat (distsUsed g). unat (distIter g ! e) \<le> 2147483647"
    and dc: "depChain = 0 \<or> depChain = 1" and dw: "doWrite = 0 \<or> doWrite = 1"
  shows "\<exists>r. runBench F g buf iter depChain doWrite sum0 aCnt = Inr r \<and>
           aCount r = aCnt + iter * accesses_per_iteration g \<and>
           lsum r = foldl (dadd F) sum0 (reads r) \<and>
           (doWrite = 0 \<longrightarrow> buffer r = buf)"
proof -
  have ok: "sizes_ok g" by (rule initBufs_sizes_ok [OF init cop nz b58])
  from init_memory_chain_ok [OF cop ok, of F] buf have c: "chain_ok g buf" by simp
  from runBench_returns [OF ok dok c dc dw small, of F iter sum0 aCnt]
  obtain r where run: "runBench F g buf iter depChain doWrite sum0 aCnt = Inr r" by blast
  have 1: "aCount r = aCnt + iter * accesses_per_iteration g"
    by (rule runBench_access_count [OF run])
  have "sum_ok F sum0 r"
  proof (rule for_i_inv [of "sum_ok F sum0" F g "depChain + 2 * doWrite"
        "\<lparr>buffer = buf, lsum = sum0, aCount = aCnt, reads = []\<rparr>" iter 0 r])
    show "\<And>r r'. sum_ok F sum0 r \<Longrightarrow> touch_first F r = Inr r' \<Longrightarrow> sum_ok F sum0 r'"
      by (auto simp add: touch_first_def split: if_splits)
    show "\<And>d r r'. sum_ok F sum0 r \<Longrightarrow> traverse F g (depChain + 2 * doWrite) d r = Inr r' \<Longrightarrow>
        sum_ok F sum0 r'"
      by (rule traverse_sum_ok)
    show "sum_ok F sum0 \<lparr>buffer = buf, lsum = sum0, aCount = aCnt, reads = []\<rparr>"
      by (simp add: sum_ok_def)
    show "for_i F g (depChain + 2 * doWrite) iter 0
        \<lparr>buffer = buf, lsum = sum0, aCount = aCnt, reads = []\<rparr> = Inr r"
      using run by (simp add: runBench_def)
  qed
  then have 2: "lsum r = foldl (dadd F) sum0 (reads r)" by (simp add: sum_ok_def)
  have 3: "doWrite = 0 \<longrightarrow> buffer r = buf"
  proof
    assume "doWrite = 0"
    with run have "runBench F g buf iter depChain 0 sum0 aCnt = Inr r" by simp
    from runBench_readonly_once [OF this dc] show "buffer r = buf" by simp
  qed
  from run 1 2 3 show ?thesis by blast
qed

section \<open>Traversal counts above INT\_MAX\<close>

lemma long_run_registered: "registered 4 long_run_example"
proof -
  have 1: "addDist 0 4294967296 (init_globals 4) =
      Inr ((init_globals 4)\<lparr>distSize := [4294967296, 0, 0, 0], distsUsed := 1\<rparr>,
        [Rd (- 1), Wr 0, Wr 0])"
    by code_simp
  have 2: "addDist 0 1 ((init_globals 4)\<lparr>distSize := [4294967296, 0, 0, 0], distsUsed := 1\<rparr>) =
      Inr (long_run_example, [Rd 0, Rd 0, Rd 0, Wr 1, Wr 1])"
    by code_simp
  show ?thesis by (rule registered_add [OF registered_add [OF registered_init 1] 2])
qed

lemma long_run_initBufs: "initBufs long_run_example = Some (Inr long_run_sizes)"
  by code_simp

lemma long_run_coprime: "gcd_u64 (blocks long_run_sizes) (blockDiff long_run_sizes) = 1"
  by code_simp

lemma long_run_sizes_ok: "sizes_ok long_run_sizes"
  by (simp add: sizes_ok_def long_run_sizes_def)

lemma long_run_dists_ok: "dists_ok long_run_sizes"
  by (simp add: dists_ok_def long_run_sizes_def)

lemma long_run_accesses: "accesses_per_iteration long_run_sizes = 4362076160"
  by code_simp

text \<open>Claim C9 says that for every registered distance set and every iteration count a call
  of \<open>runBench\<close> increases the counter by the iteration count times the sum of
  \<open>distIter[d] * distBlocks[d]\<close>. With the distances 4294967296 and 1 registered,
  \<open>initBufs\<close> sets \<open>distIter[1] = 2^32\<close> and that sum is 4362076160. The loop counter
  \<open>k\<close> is an \<open>int\<close>, its bound \<open>distIter[d]\<close> a \<open>u64\<close>: on the buffer built for these
  distances, every call with a nonzero iteration count, in each of the four modes, runs
  into the signed overflow of \<open>k++\<close> at \<open>INT_MAX\<close> before the traversals of the second
  distance are done, so it does not deliver that count.\<close>

theorem runBench_counter_overflows:
  assumes it: "iter \<noteq> 0"
    and dc: "depChain = 0 \<or> depChain = 1" and dw: "doWrite = 0 \<or> doWrite = 1"
  shows "registered 4 long_run_example \<and>
         initBufs long_run_example = Some (Inr long_run_sizes) \<and>
         distIter long_run_sizes ! 1 = 4294967296 \<and>
         accesses_per_iteration long_run_sizes = 4362076160 \<and>
         (\<exists>buf. init_memory_per_thread F long_run_sizes = Inr buf \<and>
            runBench F long_run_sizes buf iter depChain doWrite sum0 aCnt = Inl SignedOverflow)"
proof -
  from init_memory_chain_ok [OF long_run_coprime long_run_sizes_ok, of F]
  obtain buf where b: "init_memory_per_thread F long_run_sizes = Inr buf"
    and c: "chain_ok long_run_sizes buf" by blast
  have big: "2147483647 < unat (distIter long_run_sizes ! nat 1)"
    by (simp add: long_run_sizes_def)
  have u: "(1 :: int) < distsUsed long_run_sizes" by (simp add: long_run_sizes_def)
  have "runBench F long_run_sizes buf iter depChain doWrite sum0 aCnt = Inl SignedOverflow"
    by (rule runBench_overflows [OF long_run_sizes_ok long_run_dists_ok c dc dw _ u big it]) simp
  moreover have "distIter long_run_sizes ! 1 = 4294967296" by (simp add: long_run_sizes_def)
  ultimately show ?thesis
    using b long_run_registered long_run_initBufs long_run_accesses by blast
qed

theorem runBench_counter_overflows_witness:
  "(1 :: u64) \<noteq> 0 \<and>
   registered 4 long_run_example \<and>
   initBufs long_run_example = Some (Inr long_run_sizes) \<and>
   distIter long_run_sizes ! 1 = 4294967296 \<and>
   accesses_per_iteration long_run_sizes = 4362076160 \<and>
   (\<exists>buf. init_memory_per_thread example_ops long_run_sizes = Inr buf \<and>
      runBench example_ops long_run_sizes buf 1 0 0 0 0 = Inl SignedOverflow)"
  using runBench_counter_overflows [of 1 0 0 example_ops 0 0] by simp

end
